theory Spec2Isabelle
  imports Complex_Main "HOL-Library.AList" "HOL-Library.Char_ord" "HOL-Library.List_Lexorder"
begin

section \<open>Log rotation engine of \<^verbatim>\<open>rotate_logs.py\<close>\<close>

text \<open>
  The model follows class \<^verbatim>\<open>LogRotator\<close>. Modelling decisions:
  \<^item> A log directory is an association list from file names to files (content and
    modification time); a well-formed directory has distinct names. The whole
    file system maps a directory path to a node.
  \<^item> Paths are POSIX paths: \<^verbatim>\<open>Path.rename\<close> replaces an existing target.
  \<^item> Time stamps are integers counting seconds; one pass reads a single clock value.
  \<^item> What the operating system and the libraries decide is a parameter of the
    model (record \<open>os_env\<close>): the clock, \<^verbatim>\<open>pathlib\<close>'s pattern matcher, the gzip
    encoder, and for every system call that can raise \<^verbatim>\<open>OSError\<close> an oracle
    that says whether it does.
  \<^item> A directory holds regular files only, and a log name or pattern is a single
    path component. The size of a file is the length of its content.
  \<^item> \<^verbatim>\<open>Path.exists\<close> does not raise; \<^verbatim>\<open>stat\<close> raises only for a name that is gone.
  \<^item> Python integers are \<open>int\<close>; loop indices, which are positive, are \<open>nat\<close>.
    \<^verbatim>\<open>min_size_mb\<close> is a rational number: the rounding of floats is not modelled.
  \<^item> Logging is omitted; it has no effect on files or counters.
\<close>

subsection \<open>Names of rotated artifacts\<close>

definition digit_char :: "nat \<Rightarrow> char" where
  "digit_char d = ''0123456789'' ! d"

text \<open>Python's \<^verbatim>\<open>str(i)\<close> for a non-negative integer.\<close>

function str_nat :: "nat \<Rightarrow> string" where
  "str_nat n = (if n < 10 then [digit_char n] else str_nat (n div 10) @ [digit_char (n mod 10)])"
  by pat_completeness auto
termination
  by (relation "measure id") auto

declare str_nat.simps [simp del]

text \<open>\<^verbatim>\<open>f"{log_file}.{i}"\<close> and \<^verbatim>\<open>f"{old_name}.gz"\<close>.\<close>

definition rotated_name :: "string \<Rightarrow> nat \<Rightarrow> string" where
  "rotated_name log_file i = log_file @ ''.'' @ str_nat i"

definition gz_name :: "string \<Rightarrow> string" where
  "gz_name p = p @ ''.gz''"

subsection \<open>The generation suffix: \<^verbatim>\<open>re.search(r'\.(\d+)(\.gz)?$', name)\<close>\<close>

definition is_digit :: "char \<Rightarrow> bool" where
  "is_digit c = (c \<in> set ''0123456789'')"

definition digit_val :: "char \<Rightarrow> nat" where
  "digit_val c = of_char c - 48"

definition int_of_digits :: "string \<Rightarrow> nat" where
  "int_of_digits ds = foldl (\<lambda>acc c. 10 * acc + digit_val c) 0 ds"

definition strip_suffix :: "string \<Rightarrow> string \<Rightarrow> string option" where
  "strip_suffix suf s =
     (if length suf \<le> length s \<and> drop (length s - length suf) s = suf
      then Some (take (length s - length suf) s) else None)"

text \<open>
  The pattern is anchored at the end, so a match is determined from the right:
  \<^verbatim>\<open>$\<close> matches at the end of the name or before one final newline; then an optional
  \<^verbatim>\<open>.gz\<close>; then the maximal run of digits, which must be non-empty and preceded
  by a dot. The result is \<^verbatim>\<open>int(match.group(1))\<close>. Digits are the ASCII digits.
\<close>

definition rotation_num :: "string \<Rightarrow> nat option" where
  "rotation_num name =
     (let s0 = (case strip_suffix [CHR 0x0A] name of Some s \<Rightarrow> s | None \<Rightarrow> name);
          s1 = (case strip_suffix ''.gz'' s0 of Some s \<Rightarrow> s | None \<Rightarrow> s0);
          ds = rev (takeWhile is_digit (rev s1));
          pre = rev (dropWhile is_digit (rev s1))
      in if ds \<noteq> [] \<and> pre \<noteq> [] \<and> last pre = CHR ''.''
         then Some (int_of_digits ds) else None)"

subsection \<open>Files, directories, counters\<close>

record file_node =
  content :: string
  mtime :: int

type_synonym dir = "(string \<times> file_node) list"

datatype node = Missing | NotDir | Dir dir

type_synonym filesystem = "string \<Rightarrow> node"

text \<open>\<^verbatim>\<open>self.stats\<close>.\<close>

record stats =
  rotated :: int
  compressed :: int
  deleted :: int
  errors :: int
  bytes_freed :: int

definition stats0 :: stats where
  "stats0 = \<lparr>rotated = 0, compressed = 0, deleted = 0, errors = 0, bytes_freed = 0\<rparr>"

datatype gz_fault = GzOk | OpenInFails | OpenOutFails | WriteFails string | StatFails | UnlinkFails

datatype copy_fault = CopyOk | CopyFails | TruncateFails

record os_env =
  now :: int
  glob_match :: "string \<Rightarrow> string \<Rightarrow> bool"
  gzip_bytes :: "string \<Rightarrow> string"
  listing_fails :: "string \<Rightarrow> bool"
  rename_fails :: "string \<Rightarrow> bool"
  copy_fails :: "string \<Rightarrow> copy_fault"
  gz_fails :: "string \<Rightarrow> gz_fault"
  unlink_fails :: "string \<Rightarrow> bool"

text \<open>A call either returns or raises \<^verbatim>\<open>OSError\<close>; both carry the state reached.\<close>

datatype 's result = Returned 's | Raised 's

definition state_of :: "'s result \<Rightarrow> 's" where
  "state_of r = (case r of Returned s \<Rightarrow> s | Raised s \<Rightarrow> s)"

definition path_exists :: "dir \<Rightarrow> string \<Rightarrow> bool" where
  "path_exists fs p = (map_of fs p \<noteq> None)"

definition fs_unlink :: "dir \<Rightarrow> string \<Rightarrow> dir" where
  "fs_unlink fs p = AList.delete p fs"

definition fs_write :: "dir \<Rightarrow> string \<Rightarrow> file_node \<Rightarrow> dir" where
  "fs_write fs p f = AList.update p f fs"

definition fs_rename :: "dir \<Rightarrow> string \<Rightarrow> string \<Rightarrow> dir" where
  "fs_rename fs old new =
     (case map_of fs old of None \<Rightarrow> fs
      | Some f \<Rightarrow> AList.update new f (AList.delete old fs))"

subsection \<open>\<^verbatim>\<open>_should_rotate\<close>\<close>

definition should_rotate :: "dir \<Rightarrow> string \<Rightarrow> rat \<Rightarrow> bool" where
  "should_rotate fs log_file min_size_mb =
     (case map_of fs log_file of None \<Rightarrow> False
      | Some f \<Rightarrow>
          if min_size_mb > 0
          then (if of_nat (length (content f)) / (1024 * 1024) < min_size_mb then False else True)
          else True)"

subsection \<open>\<^verbatim>\<open>_shift_rotations\<close>\<close>

fun shift_loop :: "os_env \<Rightarrow> bool \<Rightarrow> string \<Rightarrow> nat list \<Rightarrow> dir \<Rightarrow> dir result" where
  "shift_loop e dry log_file [] fs = Returned fs"
| "shift_loop e dry log_file (i # rest) fs =
     (let old_name = rotated_name log_file i;
          new_name = rotated_name log_file (i + 1);
          old_gz = gz_name old_name;
          new_gz = gz_name new_name
      in if path_exists fs old_gz then
           (if \<not> dry then
              (if rename_fails e old_gz then Raised fs
               else shift_loop e dry log_file rest (fs_rename fs old_gz new_gz))
            else shift_loop e dry log_file rest fs)
         else if path_exists fs old_name then
           (if \<not> dry then
              (if rename_fails e old_name then Raised fs
               else shift_loop e dry log_file rest (fs_rename fs old_name new_name))
            else shift_loop e dry log_file rest fs)
         else shift_loop e dry log_file rest fs)"

text \<open>\<^verbatim>\<open>range(max_rotations - 1, 0, -1)\<close>\<close>

definition shift_range :: "int \<Rightarrow> nat list" where
  "shift_range max_rotations = rev [1 ..< nat max_rotations]"

definition shift_rotations :: "os_env \<Rightarrow> bool \<Rightarrow> string \<Rightarrow> int \<Rightarrow> dir \<Rightarrow> dir result" where
  "shift_rotations e dry log_file max_rotations fs =
     shift_loop e dry log_file (shift_range max_rotations) fs"

subsection \<open>\<^verbatim>\<open>_compress_rotated_logs\<close>\<close>

definition count_error :: "stats \<Rightarrow> stats" where
  "count_error st = st\<lparr>errors := errors st + 1\<rparr>"

text \<open>
  The body of the \<^verbatim>\<open>try\<close> block for one generation: open the input, open the gzip
  output, copy, read both sizes, add the difference to \<^verbatim>\<open>bytes_freed\<close>, unlink the
  original, count it. The fault says where \<^verbatim>\<open>OSError\<close> is raised, if at all; a
  failed write leaves the bytes that reached the output file.
\<close>

definition compress_one :: "os_env \<Rightarrow> string \<Rightarrow> string \<Rightarrow> dir \<times> stats \<Rightarrow> dir \<times> stats" where
  "compress_one e rotated_file compressed_file s =
     (case s of (fs, st) \<Rightarrow>
      (case map_of fs rotated_file of
         None \<Rightarrow> (fs, count_error st)
       | Some f \<Rightarrow>
          (let gz = \<lparr>content = gzip_bytes e (content f), mtime = now e\<rparr>;
               original_size = int (length (content f));
               compressed_size = int (length (content gz));
               saved = original_size - compressed_size
           in case gz_fails e rotated_file of
                OpenInFails \<Rightarrow> (fs, count_error st)
              | OpenOutFails \<Rightarrow> (fs, count_error st)
              | WriteFails partial \<Rightarrow>
                  (fs_write fs compressed_file \<lparr>content = partial, mtime = now e\<rparr>,
                   count_error st)
              | StatFails \<Rightarrow> (fs_write fs compressed_file gz, count_error st)
              | UnlinkFails \<Rightarrow>
                  (fs_write fs compressed_file gz,
                   count_error (st\<lparr>bytes_freed := bytes_freed st + saved\<rparr>))
              | GzOk \<Rightarrow>
                  (fs_unlink (fs_write fs compressed_file gz) rotated_file,
                   st\<lparr>bytes_freed := bytes_freed st + saved,
                      compressed := compressed st + 1\<rparr>))))"

fun compress_loop :: "os_env \<Rightarrow> bool \<Rightarrow> string \<Rightarrow> nat list \<Rightarrow> dir \<times> stats \<Rightarrow> dir \<times> stats" where
  "compress_loop e dry log_file [] s = s"
| "compress_loop e dry log_file (i # rest) s =
     (case s of (fs, st) \<Rightarrow>
      (let rotated_file = rotated_name log_file i;
           compressed_file = gz_name rotated_file
       in if path_exists fs rotated_file \<and> \<not> path_exists fs compressed_file then
            (if \<not> dry then
               compress_loop e dry log_file rest
                 (compress_one e rotated_file compressed_file (fs, st))
             else compress_loop e dry log_file rest
                    (fs, st\<lparr>compressed := compressed st + 1\<rparr>))
          else compress_loop e dry log_file rest (fs, st)))"

text \<open>\<^verbatim>\<open>range(1, max_rotations + 1)\<close>\<close>

definition compress_range :: "int \<Rightarrow> nat list" where
  "compress_range max_rotations = [1 ..< nat (max_rotations + 1)]"

definition compress_rotated_logs ::
    "os_env \<Rightarrow> bool \<Rightarrow> string \<Rightarrow> int \<Rightarrow> dir \<times> stats \<Rightarrow> dir \<times> stats" where
  "compress_rotated_logs e dry log_file max_rotations s =
     compress_loop e dry log_file (compress_range max_rotations) s"

subsection \<open>\<^verbatim>\<open>_cleanup_old_rotations\<close>\<close>

definition too_old :: "int \<Rightarrow> file_node \<Rightarrow> bool" where
  "too_old cutoff_date f = (mtime f < cutoff_date)"

definition too_many :: "int \<Rightarrow> string \<Rightarrow> bool" where
  "too_many max_rotations name =
     (case rotation_num name of
        Some n \<Rightarrow> int n > max_rotations
      | None \<Rightarrow> False)"

fun cleanup_loop ::
    "os_env \<Rightarrow> bool \<Rightarrow> string \<Rightarrow> int \<Rightarrow> int \<Rightarrow> string list \<Rightarrow> dir \<times> stats \<Rightarrow> (dir \<times> stats) result" where
  "cleanup_loop e dry log_file cutoff_date max_rotations [] s = Returned s"
| "cleanup_loop e dry log_file cutoff_date max_rotations (rotated_path # rest) s =
     (case s of (fs, st) \<Rightarrow>
      if rotated_path = log_file then
        cleanup_loop e dry log_file cutoff_date max_rotations rest (fs, st)
      else
        (case map_of fs rotated_path of
           None \<Rightarrow> Raised (fs, st)
         | Some f \<Rightarrow>
            if too_old cutoff_date f \<or> too_many max_rotations rotated_path then
              (let size = int (length (content f)) in
               if \<not> dry then
                 (if unlink_fails e rotated_path then
                    cleanup_loop e dry log_file cutoff_date max_rotations rest
                      (fs, count_error st)
                  else
                    cleanup_loop e dry log_file cutoff_date max_rotations rest
                      (fs_unlink fs rotated_path,
                       st\<lparr>deleted := deleted st + 1, bytes_freed := bytes_freed st + size\<rparr>))
               else
                 cleanup_loop e dry log_file cutoff_date max_rotations rest
                   (fs, st\<lparr>deleted := deleted st + 1\<rparr>))
            else cleanup_loop e dry log_file cutoff_date max_rotations rest (fs, st)))"

text \<open>
  \<^verbatim>\<open>sorted(log_file.parent.glob(f"{log_file.name}.*"), key=lambda p: p.stat().st_mtime)\<close>:
  the matching names in directory order, stably sorted by modification time.
\<close>

definition rotated_files :: "os_env \<Rightarrow> string \<Rightarrow> dir \<Rightarrow> string list" where
  "rotated_files e log_file fs =
     map fst (sort_key (\<lambda>p. mtime (snd p))
                (filter (\<lambda>p. glob_match e (log_file @ ''.*'') (fst p)) fs))"

definition cutoff :: "os_env \<Rightarrow> int \<Rightarrow> int" where
  "cutoff e max_age_days = now e - max_age_days * 86400"

definition cleanup_old_rotations ::
    "os_env \<Rightarrow> bool \<Rightarrow> string \<Rightarrow> int \<Rightarrow> int \<Rightarrow> dir \<times> stats \<Rightarrow> (dir \<times> stats) result" where
  "cleanup_old_rotations e dry log_file max_age_days max_rotations s =
     cleanup_loop e dry log_file (cutoff e max_age_days) max_rotations
       (rotated_files e log_file (fst s)) s"

subsection \<open>\<^verbatim>\<open>_process_log_file\<close>\<close>

text \<open>
  \<^verbatim>\<open>shutil.copy2\<close> copies content and modification time; opening the log for
  writing truncates it.
\<close>

definition fs_copy2 :: "dir \<Rightarrow> string \<Rightarrow> string \<Rightarrow> dir" where
  "fs_copy2 fs src dst = (case map_of fs src of None \<Rightarrow> fs | Some f \<Rightarrow> fs_write fs dst f)"

definition fs_truncate :: "os_env \<Rightarrow> dir \<Rightarrow> string \<Rightarrow> dir" where
  "fs_truncate e fs p = fs_write fs p \<lparr>content = [], mtime = now e\<rparr>"

text \<open>
  The block that rotates the current log: \<open>Inr\<close> when control reaches the
  compression step, \<open>Inl\<close> when the \<^verbatim>\<open>except\<close> branch returns.
\<close>

definition rotate_current ::
    "os_env \<Rightarrow> bool \<Rightarrow> string \<Rightarrow> dir \<times> stats \<Rightarrow> (dir \<times> stats) + (dir \<times> stats)" where
  "rotate_current e dry log_file s =
     (case s of (fs, st) \<Rightarrow>
      if \<not> dry then
        (let snapshot = rotated_name log_file 1 in
         if \<not> path_exists fs log_file \<or> copy_fails e log_file = CopyFails then
           Inl (fs, count_error st)
         else if copy_fails e log_file = TruncateFails then
           Inl (fs_copy2 fs log_file snapshot, count_error st)
         else
           Inr (fs_truncate e (fs_copy2 fs log_file snapshot) log_file,
                st\<lparr>rotated := rotated st + 1\<rparr>))
      else Inr (fs, st\<lparr>rotated := rotated st + 1\<rparr>))"

definition compress_and_cleanup ::
    "os_env \<Rightarrow> bool \<Rightarrow> string \<Rightarrow> int \<Rightarrow> int \<Rightarrow> bool \<Rightarrow> dir \<times> stats \<Rightarrow> (dir \<times> stats) result" where
  "compress_and_cleanup e dry log_file max_age_days max_rotations compress s =
     cleanup_old_rotations e dry log_file max_age_days max_rotations
       (if compress then compress_rotated_logs e dry log_file max_rotations s else s)"

definition process_log_file ::
    "os_env \<Rightarrow> bool \<Rightarrow> string \<Rightarrow> int \<Rightarrow> int \<Rightarrow> bool \<Rightarrow> rat \<Rightarrow> dir \<times> stats \<Rightarrow> (dir \<times> stats) result" where
  "process_log_file e dry log_file max_age_days max_rotations compress min_size_mb s =
     (case s of (fs, st) \<Rightarrow>
      if \<not> should_rotate fs log_file min_size_mb then Returned (fs, st)
      else
        (case shift_rotations e dry log_file max_rotations fs of
           Raised fs1 \<Rightarrow> Raised (fs1, st)
         | Returned fs1 \<Rightarrow>
            (case rotate_current e dry log_file (fs1, st) of
               Inl s1 \<Rightarrow> Returned s1
             | Inr s1 \<Rightarrow>
                 compress_and_cleanup e dry log_file max_age_days max_rotations compress s1)))"

subsection \<open>\<^verbatim>\<open>_find_log_files\<close>, \<^verbatim>\<open>_process_log_group\<close>, \<^verbatim>\<open>rotate_logs\<close>\<close>

definition find_log_files :: "os_env \<Rightarrow> dir \<Rightarrow> string \<Rightarrow> string list" where
  "find_log_files e fs pattern =
     (if CHR ''*'' \<in> set pattern \<or> CHR ''?'' \<in> set pattern
      then sort (filter (glob_match e pattern) (map fst fs))
      else (if path_exists fs pattern then [pattern] else []))"

text \<open>One group of the configuration; a key that is absent is \<open>None\<close>.\<close>

record group_config =
  cfg_directory :: "string option"
  cfg_pattern :: "string option"
  cfg_max_age_days :: "int option"
  cfg_max_rotations :: "int option"
  cfg_compress :: "bool option"
  cfg_min_size_mb :: "rat option"

definition config_get :: "'a option \<Rightarrow> 'a \<Rightarrow> 'a" where
  "config_get v d = (case v of Some x \<Rightarrow> x | None \<Rightarrow> d)"

text \<open>The loop over the files of a group; an \<^verbatim>\<open>OSError\<close> that escapes is counted.\<close>

fun process_files ::
    "os_env \<Rightarrow> bool \<Rightarrow> int \<Rightarrow> int \<Rightarrow> bool \<Rightarrow> rat \<Rightarrow> string list \<Rightarrow> dir \<times> stats \<Rightarrow> dir \<times> stats" where
  "process_files e dry max_age_days max_rotations compress min_size_mb [] s = s"
| "process_files e dry max_age_days max_rotations compress min_size_mb (log_file # rest) s =
     (case process_log_file e dry log_file max_age_days max_rotations compress min_size_mb s of
        Returned s1 \<Rightarrow>
          process_files e dry max_age_days max_rotations compress min_size_mb rest s1
      | Raised s1 \<Rightarrow>
          process_files e dry max_age_days max_rotations compress min_size_mb rest
            (fst s1, count_error (snd s1)))"

definition process_log_group ::
    "os_env \<Rightarrow> bool \<Rightarrow> group_config \<Rightarrow> filesystem \<times> stats \<Rightarrow> filesystem \<times> stats" where
  "process_log_group e dry config s =
     (case s of (world, st) \<Rightarrow>
      (let log_dir = config_get (cfg_directory config) '''';
           pattern = config_get (cfg_pattern config) ''*'';
           max_age_days = config_get (cfg_max_age_days config) 30;
           max_rotations = config_get (cfg_max_rotations config) 5;
           compress = config_get (cfg_compress config) True;
           min_size_mb = config_get (cfg_min_size_mb config) 0
       in case world log_dir of
            Missing \<Rightarrow> (world, st)
          | NotDir \<Rightarrow> (world, count_error st)
          | Dir fs \<Rightarrow>
              if listing_fails e log_dir then (world, count_error st)
              else
                (let log_files = find_log_files e fs pattern in
                 if log_files = [] then (world, st)
                 else
                   (case process_files e dry max_age_days max_rotations compress min_size_mb
                           log_files (fs, st) of
                      (fs1, st1) \<Rightarrow> (world(log_dir := Dir fs1), st1)))))"

fun process_groups ::
    "os_env \<Rightarrow> bool \<Rightarrow> (string \<times> group_config) list \<Rightarrow> filesystem \<times> stats \<Rightarrow> filesystem \<times> stats" where
  "process_groups e dry [] s = s"
| "process_groups e dry (g # rest) s =
     process_groups e dry rest (process_log_group e dry (snd g) s)"

text \<open>
  \<^verbatim>\<open>rotate_logs\<close> of a fresh \<^verbatim>\<open>LogRotator\<close>: the exit code, the file system and the
  counters at the end.
\<close>

definition rotate_logs ::
    "os_env \<Rightarrow> bool \<Rightarrow> (string \<times> group_config) list \<Rightarrow> filesystem \<Rightarrow> int \<times> filesystem \<times> stats" where
  "rotate_logs e dry log_groups world =
     (if log_groups = [] then (1, world, stats0)
      else
        (case process_groups e dry log_groups (world, stats0) of
           (world1, st1) \<Rightarrow> ((if errors st1 = 0 then 0 else 1), world1, st1)))"

subsection \<open>A pattern matcher and an environment for concrete runs\<close>

text \<open>
  Shell-style matching for patterns made of literal characters, \<^verbatim>\<open>*\<close> and \<^verbatim>\<open>?\<close>,
  which is what \<^verbatim>\<open>pathlib\<close> does for such patterns. It instantiates \<open>glob_match\<close>
  in the concrete runs below; the general theorems hold for every matcher.
\<close>

fun fnmatch :: "string \<Rightarrow> string \<Rightarrow> bool" where
  "fnmatch [] [] = True"
| "fnmatch [] (c # cs) = False"
| "fnmatch (p # ps) [] = (p = CHR ''*'' \<and> fnmatch ps [])"
| "fnmatch (p # ps) (c # cs) =
     (if p = CHR ''*'' then fnmatch ps (c # cs) \<or> fnmatch (p # ps) cs
      else if p = CHR ''?'' then fnmatch ps cs
      else p = c \<and> fnmatch ps cs)"

text \<open>No system call fails; gzip is modelled by a fixed four-byte frame around the data.\<close>

definition quiet_env :: "int \<Rightarrow> os_env" where
  "quiet_env t =
     \<lparr>now = t, glob_match = fnmatch, gzip_bytes = (\<lambda>bs. ''GZ'' @ bs @ ''ZG''),
      listing_fails = (\<lambda>_. False), rename_fails = (\<lambda>_. False),
      copy_fails = (\<lambda>_. CopyOk), gz_fails = (\<lambda>_. GzOk), unlink_fails = (\<lambda>_. False)\<rparr>"

text \<open>The scenario of the specification: a log with two earlier generations.\<close>

definition app_dir :: dir where
  "app_dir =
     [(''app.log'', \<lparr>content = ''hello'', mtime = 999000\<rparr>),
      (''app.log.1'', \<lparr>content = ''one'', mtime = 998000\<rparr>),
      (''app.log.2.gz'', \<lparr>content = ''two'', mtime = 997000\<rparr>)]"

definition app_world :: filesystem where
  "app_world = (\<lambda>d. if d = ''/var/log/app'' then Dir app_dir else Missing)"

definition app_groups :: "(string \<times> group_config) list" where
  "app_groups =
     [(''app'', \<lparr>cfg_directory = Some ''/var/log/app'', cfg_pattern = Some ''app.log'',
                 cfg_max_age_days = Some 30, cfg_max_rotations = Some 3,
                 cfg_compress = Some True, cfg_min_size_mb = None\<rparr>)]"

subsection \<open>What the sweep selects\<close>

text \<open>
  The condition under which the loop of \<^verbatim>\<open>_cleanup_old_rotations\<close> reaches
  \<^verbatim>\<open>unlink\<close> for a directory entry, the entries a real run removes, and the names
  of a listing that are selected.
\<close>

definition doomed :: "string \<Rightarrow> int \<Rightarrow> int \<Rightarrow> string \<times> file_node \<Rightarrow> bool" where
  "doomed log_file cutoff_date max_rotations p =
     (fst p \<noteq> log_file \<and> (too_old cutoff_date (snd p) \<or> too_many max_rotations (fst p)))"

definition swept :: "os_env \<Rightarrow> string \<Rightarrow> int \<Rightarrow> int \<Rightarrow> string list \<Rightarrow> string \<times> file_node \<Rightarrow> bool" where
  "swept e log_file cutoff_date max_rotations ps p =
     (fst p \<in> set ps \<and> doomed log_file cutoff_date max_rotations p \<and> \<not> unlink_fails e (fst p))"

definition sweep_selected :: "string \<Rightarrow> int \<Rightarrow> int \<Rightarrow> dir \<Rightarrow> string list \<Rightarrow> string list" where
  "sweep_selected log_file cutoff_date max_rotations fs ps =
     filter (\<lambda>x. case map_of fs x of Some f \<Rightarrow> doomed log_file cutoff_date max_rotations (x, f)
                  | None \<Rightarrow> False) ps"

text \<open>A directory for the sweep: the clock reads day 100, files are 0 to 40 days old.\<close>

definition sweep_dir :: dir where
  "sweep_dir =
     [(''app.log'', \<lparr>content = ''now'', mtime = 8640000\<rparr>),
      (''app.log.1.gz'', \<lparr>content = ''one'', mtime = 7776000\<rparr>),
      (''app.log.5.gz'', \<lparr>content = ''five'', mtime = 7776000\<rparr>),
      (''app.log.2.gz'', \<lparr>content = ''two'', mtime = 5961600\<rparr>),
      (''app.log.bak'', \<lparr>content = ''backup'', mtime = 5184000\<rparr>),
      (''app.log.new'', \<lparr>content = ''n'', mtime = 8553600\<rparr>)]"

subsection \<open>What the compression pass does to one generation\<close>

text \<open>
  The files at \<^verbatim>\<open><name>.N\<close> and \<^verbatim>\<open><name>.N.gz\<close> after the body of the loop of
  \<^verbatim>\<open>_compress_rotated_logs\<close>, from the files there before; and the loop's condition.
\<close>

definition gzipped :: "os_env \<Rightarrow> file_node \<Rightarrow> file_node" where
  "gzipped e f = \<lparr>content = gzip_bytes e (content f), mtime = now e\<rparr>"

definition compress_outcome ::
    "os_env \<Rightarrow> string \<Rightarrow> file_node option \<Rightarrow> file_node option \<Rightarrow> file_node option \<times> file_node option" where
  "compress_outcome e rotated_file plain gz =
     (case plain of
        None \<Rightarrow> (plain, gz)
      | Some f \<Rightarrow>
          if gz \<noteq> None then (plain, gz)
          else
            (case gz_fails e rotated_file of
               GzOk \<Rightarrow> (None, Some (gzipped e f))
             | OpenInFails \<Rightarrow> (plain, None)
             | OpenOutFails \<Rightarrow> (plain, None)
             | WriteFails partial \<Rightarrow> (plain, Some \<lparr>content = partial, mtime = now e\<rparr>)
             | StatFails \<Rightarrow> (plain, Some (gzipped e f))
             | UnlinkFails \<Rightarrow> (plain, Some (gzipped e f))))"

definition compress_attempted :: "string \<Rightarrow> dir \<Rightarrow> nat \<Rightarrow> bool" where
  "compress_attempted log_file fs i =
     (path_exists fs (rotated_name log_file i) \<and> \<not> path_exists fs (gz_name (rotated_name log_file i)))"

text \<open>Two uncompressed generations, and an environment where writing \<^verbatim>\<open>app.log.1.gz\<close> fails.\<close>

definition flaky_env :: os_env where
  "flaky_env = (quiet_env 1000000)
     \<lparr>gz_fails := (\<lambda>p. if p = ''app.log.1'' then WriteFails ''GZhe'' else GzOk)\<rparr>"

definition plain_dir :: dir where
  "plain_dir =
     [(''app.log'', \<lparr>content = [], mtime = 999000\<rparr>),
      (''app.log.1'', \<lparr>content = ''hello'', mtime = 998000\<rparr>),
      (''app.log.2'', \<lparr>content = ''world'', mtime = 997000\<rparr>)]"

subsection \<open>What the shift does to the name-to-file map\<close>

text \<open>
  One iteration of the loop of \<^verbatim>\<open>_shift_rotations\<close> as an update of the map, and the
  files at \<^verbatim>\<open><name>.j.gz\<close> and \<^verbatim>\<open><name>.j\<close> after the loop has run from \<open>k - 1\<close> down
  to 1, from the map before.
\<close>

definition shifted_gz :: "string \<Rightarrow> nat \<Rightarrow> (string \<rightharpoonup> file_node) \<Rightarrow> nat \<Rightarrow> file_node option" where
  "shifted_gz l k m j =
     (if 2 \<le> j \<and> j \<le> k \<and> m (gz_name (rotated_name l (j - 1))) \<noteq> None
      then m (gz_name (rotated_name l (j - 1)))
      else if 1 \<le> j \<and> j < k then None
      else m (gz_name (rotated_name l j)))"

definition shifted_plain :: "string \<Rightarrow> nat \<Rightarrow> (string \<rightharpoonup> file_node) \<Rightarrow> nat \<Rightarrow> file_node option" where
  "shifted_plain l k m j =
     (if 2 \<le> j \<and> j \<le> k \<and> m (gz_name (rotated_name l (j - 1))) = None
         \<and> m (rotated_name l (j - 1)) \<noteq> None
      then m (rotated_name l (j - 1))
      else if 1 \<le> j \<and> j < k \<and> m (gz_name (rotated_name l j)) = None then None
      else m (rotated_name l j))"

definition shift_step :: "string \<Rightarrow> nat \<Rightarrow> (string \<rightharpoonup> file_node) \<Rightarrow> (string \<rightharpoonup> file_node)" where
  "shift_step l i m =
     (case m (gz_name (rotated_name l i)) of
        Some g \<Rightarrow> (m(gz_name (rotated_name l i) := None))(gz_name (rotated_name l (i + 1)) \<mapsto> g)
      | None \<Rightarrow>
         (case m (rotated_name l i) of
            Some p \<Rightarrow> (m(rotated_name l i := None))(rotated_name l (i + 1) \<mapsto> p)
          | None \<Rightarrow> m))"


subsection \<open>An environment in which no system call fails\<close>

definition no_failures :: "os_env \<Rightarrow> bool" where
  "no_failures e =
     (\<forall>p. \<not> rename_fails e p \<and> copy_fails e p = CopyOk \<and> gz_fails e p = GzOk \<and> \<not> unlink_fails e p)"

subsection \<open>Generations present in a directory\<close>




section \<open>Properties\<close>

subsection \<open>Decimal names and the generation suffix\<close>

lemma digit_char_is_digit: "d < 10 \<Longrightarrow> is_digit (digit_char d)"
  by (simp add: is_digit_def digit_char_def less_Suc_eq numeral_eq_Suc, elim disjE; simp)

lemma digit_val_digit_char: "d < 10 \<Longrightarrow> digit_val (digit_char d) = d"
  by (simp add: digit_val_def digit_char_def less_Suc_eq numeral_eq_Suc, elim disjE; simp)

lemma str_nat_digits: "c \<in> set (str_nat n) \<Longrightarrow> is_digit c"
proof (induction n rule: str_nat.induct)
  case (1 n)
  show ?case
  proof (cases "n < 10")
    case True
    with "1.prems" show ?thesis
      by (simp add: str_nat.simps [of n] digit_char_is_digit)
  next
    case False
    with "1.prems" "1.IH" show ?thesis
      by (auto simp: str_nat.simps [of n] digit_char_is_digit)
  qed
qed

lemma str_nat_nonempty: "str_nat n \<noteq> []"
  by (simp add: str_nat.simps [of n])

lemma int_of_digits_snoc: "int_of_digits (ds @ [c]) = 10 * int_of_digits ds + digit_val c"
  by (simp add: int_of_digits_def)

lemma int_of_digits_str_nat: "int_of_digits (str_nat n) = n"
proof (induction n rule: str_nat.induct)
  case (1 n)
  show ?case
  proof (cases "n < 10")
    case True
    then show ?thesis
      by (simp add: str_nat.simps [of n] int_of_digits_def digit_val_digit_char)
  next
    case False
    with "1.IH" show ?thesis
      by (simp add: str_nat.simps [of n] int_of_digits_snoc digit_val_digit_char)
  qed
qed

lemma str_nat_inj: "str_nat a = str_nat b \<longleftrightarrow> a = b"
  by (metis int_of_digits_str_nat)

lemma last_str_nat_digit: "is_digit (last (str_nat n))"
  using str_nat_digits [of "last (str_nat n)" n] str_nat_nonempty [of n] by simp

lemma rotated_name_inj [simp]: "rotated_name l i = rotated_name l j \<longleftrightarrow> i = j"
  by (simp add: rotated_name_def str_nat_inj)

lemma gz_name_inj [simp]: "gz_name p = gz_name q \<longleftrightarrow> p = q"
  by (simp add: gz_name_def)

lemma not_digit_z: "\<not> is_digit CHR ''z''" by (simp add: is_digit_def)

lemma gz_neq_rotated [simp]: "gz_name (rotated_name l i) \<noteq> rotated_name l j"
proof
  assume "gz_name (rotated_name l i) = rotated_name l j"
  then have "str_nat i @ ''.gz'' = str_nat j"
    by (simp add: gz_name_def rotated_name_def)
  then have "last (str_nat j) = CHR ''z''"
    by (metis last_appendR last.simps list.distinct(1))
  with last_str_nat_digit [of j] show False by (simp add: not_digit_z)
qed

lemma rotated_neq_gz [simp]: "rotated_name l j \<noteq> gz_name (rotated_name l i)"
  using gz_neq_rotated [of l i j] by metis

lemma rotated_neq_base [simp]: "rotated_name l i \<noteq> l" "l \<noteq> rotated_name l i"
  by (simp_all add: rotated_name_def)

lemma gz_neq_base [simp]: "gz_name (rotated_name l i) \<noteq> l" "l \<noteq> gz_name (rotated_name l i)"
  by (simp_all add: rotated_name_def gz_name_def)

lemma strip_suffix_append: "strip_suffix suf (xs @ suf) = Some xs"
  by (simp add: strip_suffix_def)

lemma strip_suffix_last: "s \<noteq> [] \<Longrightarrow> suf \<noteq> [] \<Longrightarrow> last s \<noteq> last suf \<Longrightarrow> strip_suffix suf s = None"
  by (auto simp: strip_suffix_def) (metis last_drop drop_eq_Nil not_le)

lemma not_digit_dot: "\<not> is_digit CHR ''.''" by (simp add: is_digit_def)

lemma takeWhile_run: "\<forall>c\<in>set xs. P c \<Longrightarrow> \<not> P y \<Longrightarrow> takeWhile P (xs @ y # ys) = xs"
  by (induction xs) simp_all

lemma dropWhile_run: "\<forall>c\<in>set xs. P c \<Longrightarrow> \<not> P y \<Longrightarrow> dropWhile P (xs @ y # ys) = y # ys"
  by (induction xs) simp_all

lemma digit_run:
  assumes "\<forall>c\<in>set ds. is_digit c"
  shows "takeWhile is_digit (rev (l @ CHR ''.'' # ds)) = rev ds"
    and "dropWhile is_digit (rev (l @ CHR ''.'' # ds)) = CHR ''.'' # rev l"
proof -
  have r: "rev (l @ CHR ''.'' # ds) = rev ds @ (CHR ''.'' # rev l)" by simp
  have a: "\<forall>c\<in>set (rev ds). is_digit c" using assms by simp
  show "takeWhile is_digit (rev (l @ CHR ''.'' # ds)) = rev ds"
    unfolding r by (rule takeWhile_run [OF a not_digit_dot])
  show "dropWhile is_digit (rev (l @ CHR ''.'' # ds)) = CHR ''.'' # rev l"
    unfolding r by (rule dropWhile_run [OF a not_digit_dot])
qed

lemma rotation_num_plain: 
  assumes d: "\<forall>c\<in>set ds. is_digit c" and ne: "ds \<noteq> []"
  shows "rotation_num (l @ CHR ''.'' # ds) = Some (int_of_digits ds)"
proof -
  let ?n = "l @ CHR ''.'' # ds"
  have "is_digit (last ?n)" using d ne by simp
  then have l1: "last ?n \<noteq> CHR 0x0A" and l2: "last ?n \<noteq> CHR ''z''"
    by (auto simp: is_digit_def)
  have s0: "strip_suffix [CHR 0x0A] ?n = None"
    using l1 by (intro strip_suffix_last) simp_all
  have s1: "strip_suffix ''.gz'' ?n = None"
    using l2 by (intro strip_suffix_last) simp_all
  show ?thesis
    unfolding rotation_num_def s0 s1 option.case Let_def digit_run [OF d]
    using ne by simp
qed

lemma rotation_num_dotgz: 
  assumes d: "\<forall>c\<in>set ds. is_digit c" and ne: "ds \<noteq> []"
  shows "rotation_num ((l @ CHR ''.'' # ds) @ ''.gz'') = Some (int_of_digits ds)"
proof -
  let ?n = "l @ CHR ''.'' # ds"
  have s0: "strip_suffix [CHR 0x0A] (?n @ ''.gz'') = None"
    by (intro strip_suffix_last) simp_all
  have s1: "strip_suffix ''.gz'' (?n @ ''.gz'') = Some ?n"
    by (rule strip_suffix_append)
  show ?thesis
    unfolding rotation_num_def s0 s1 option.case Let_def digit_run [OF d]
    using ne by simp
qed

lemma rotation_num_rotated [simp]: "rotation_num (rotated_name l i) = Some i"
  using rotation_num_plain [of "str_nat i" l]
  by (simp add: rotated_name_def str_nat_digits str_nat_nonempty int_of_digits_str_nat)

lemma rotation_num_gz [simp]: "rotation_num (gz_name (rotated_name l i)) = Some i"
  using rotation_num_dotgz [of "str_nat i" l]
  by (simp add: rotated_name_def gz_name_def str_nat_digits str_nat_nonempty int_of_digits_str_nat)

subsection \<open>File operations as updates of the name-to-file map\<close>

lemma map_of_fs_unlink: "map_of (fs_unlink fs p) = (map_of fs)(p := None)"
  by (simp add: fs_unlink_def delete_conv')

lemma map_of_fs_write: "map_of (fs_write fs p f) = (map_of fs)(p \<mapsto> f)"
  by (simp add: fs_write_def update_conv')

lemma map_of_fs_rename:
  "map_of fs old = Some f \<Longrightarrow> map_of (fs_rename fs old new) = ((map_of fs)(old := None))(new \<mapsto> f)"
  by (simp add: fs_rename_def update_conv' delete_conv')

lemma map_of_fs_copy2:
  "map_of fs src = Some f \<Longrightarrow> map_of (fs_copy2 fs src dst) = (map_of fs)(dst \<mapsto> f)"
  by (simp add: fs_copy2_def map_of_fs_write)

lemma map_of_fs_truncate:
  "map_of (fs_truncate e fs p) = (map_of fs)(p \<mapsto> \<lparr>content = [], mtime = now e\<rparr>)"
  by (simp add: fs_truncate_def map_of_fs_write)

lemma distinct_fs_unlink: "distinct (map fst fs) \<Longrightarrow> distinct (map fst (fs_unlink fs p))"
  by (simp add: fs_unlink_def distinct_delete)

lemma distinct_fs_write: "distinct (map fst fs) \<Longrightarrow> distinct (map fst (fs_write fs p f))"
  by (simp add: fs_write_def distinct_update)

lemma distinct_fs_rename: "distinct (map fst fs) \<Longrightarrow> distinct (map fst (fs_rename fs old new))"
  by (simp add: fs_rename_def distinct_update distinct_delete split: option.split)

subsection \<open>The scenario with three generations\<close>

text \<open>
  Claim C2. With \<^verbatim>\<open>max_rotations = 3\<close> and a directory that holds \<^verbatim>\<open>app.log\<close>,
  \<^verbatim>\<open>app.log.1\<close> and \<^verbatim>\<open>app.log.2.gz\<close> (and no \<^verbatim>\<open>app.log.1.gz\<close>), the shift followed by
  copy-and-truncate returns, and afterwards \<^verbatim>\<open>app.log\<close> is empty, \<^verbatim>\<open>app.log.1\<close> is
  the old log, \<^verbatim>\<open>app.log.2\<close> is the old \<^verbatim>\<open>app.log.1\<close>, \<^verbatim>\<open>app.log.3.gz\<close> is the old
  \<^verbatim>\<open>app.log.2.gz\<close>, and the name \<^verbatim>\<open>app.log.2.gz\<close> is gone.
\<close>

theorem scenario_three_generations:
  assumes base: "map_of fs ''app.log'' = Some f0"
    and g1: "map_of fs ''app.log.1'' = Some f1" and g1z: "map_of fs ''app.log.1.gz'' = None"
    and g2z: "map_of fs ''app.log.2.gz'' = Some f2"
    and ok: "\<not> rename_fails e ''app.log.2.gz''" "\<not> rename_fails e ''app.log.1''"
      "copy_fails e ''app.log'' = CopyOk"
  shows "\<exists>fs1 fs2.
           shift_rotations e False ''app.log'' 3 fs = Returned fs1 \<and>
           rotate_current e False ''app.log'' (fs1, st) = Inr (fs2, st\<lparr>rotated := rotated st + 1\<rparr>) \<and>
           map_of fs2 ''app.log'' = Some \<lparr>content = [], mtime = now e\<rparr> \<and>
           map_of fs2 ''app.log.1'' = Some f0 \<and>
           map_of fs2 ''app.log.2'' = Some f1 \<and>
           map_of fs2 ''app.log.3.gz'' = Some f2 \<and>
           map_of fs2 ''app.log.2.gz'' = None"
proof -
  let ?a = "fs_rename fs ''app.log.2.gz'' ''app.log.3.gz''"
  let ?b = "fs_rename ?a ''app.log.1'' ''app.log.2''"
  have n: "rotated_name ''app.log'' 1 = ''app.log.1''" "rotated_name ''app.log'' 2 = ''app.log.2''"
    "rotated_name ''app.log'' 3 = ''app.log.3''"
    "rotated_name ''app.log'' (Suc 0) = ''app.log.1''"
    "rotated_name ''app.log'' (Suc (Suc 0)) = ''app.log.2''"
    by (simp_all add: rotated_name_def str_nat.simps digit_char_def)
  have ma: "map_of ?a = ((map_of fs)(''app.log.2.gz'' := None))(''app.log.3.gz'' \<mapsto> f2)"
    using g2z by (rule map_of_fs_rename)
  have a1: "map_of ?a ''app.log.1'' = Some f1" and a1z: "map_of ?a ''app.log.1.gz'' = None"
    using g1 g1z by (simp_all add: ma)
  have mb: "map_of ?b = ((map_of ?a)(''app.log.1'' := None))(''app.log.2'' \<mapsto> f1)"
    using a1 by (rule map_of_fs_rename)
  have rng: "shift_range 3 = [2, 1]"
    by code_simp
  have shift: "shift_rotations e False ''app.log'' 3 fs = Returned ?b"
    using g2z a1 a1z ok
    by (simp add: shift_rotations_def rng Let_def n gz_name_def path_exists_def)
  have b0: "map_of ?b ''app.log'' = Some f0"
    using base by (simp add: mb ma)
  let ?c = "fs_truncate e (fs_copy2 ?b ''app.log'' ''app.log.1'') ''app.log''"
  have rot: "rotate_current e False ''app.log'' (?b, st) = Inr (?c, st\<lparr>rotated := rotated st + 1\<rparr>)"
    using b0 ok by (simp add: rotate_current_def path_exists_def n)
  have mc: "map_of ?c = ((map_of ?b)(''app.log.1'' \<mapsto> f0))(''app.log'' \<mapsto> \<lparr>content = [], mtime = now e\<rparr>)"
    by (simp add: map_of_fs_truncate map_of_fs_copy2 [OF b0])
  have "map_of ?c ''app.log'' = Some \<lparr>content = [], mtime = now e\<rparr>" 
    "map_of ?c ''app.log.1'' = Some f0" "map_of ?c ''app.log.2'' = Some f1"
    "map_of ?c ''app.log.3.gz'' = Some f2" "map_of ?c ''app.log.2.gz'' = None"
    by (simp_all add: mc mb ma)
  with shift rot show ?thesis by blast
qed

theorem scenario_three_generations_witness:
  "\<exists>fs1 fs2.
           shift_rotations (quiet_env 1000000) False ''app.log'' 3 app_dir = Returned fs1 \<and>
           rotate_current (quiet_env 1000000) False ''app.log'' (fs1, stats0) = Inr (fs2, stats0\<lparr>rotated := rotated stats0 + 1\<rparr>) \<and>
           map_of fs2 ''app.log'' = Some \<lparr>content = [], mtime = 1000000\<rparr> \<and>
           map_of fs2 ''app.log.1'' = Some \<lparr>content = ''hello'', mtime = 999000\<rparr> \<and>
           map_of fs2 ''app.log.2'' = Some \<lparr>content = ''one'', mtime = 998000\<rparr> \<and>
           map_of fs2 ''app.log.3.gz'' = Some \<lparr>content = ''two'', mtime = 997000\<rparr> \<and>
           map_of fs2 ''app.log.2.gz'' = None"
  using scenario_three_generations [of app_dir "\<lparr>content = ''hello'', mtime = 999000\<rparr>" "\<lparr>content = ''one'', mtime = 998000\<rparr>"
      "\<lparr>content = ''two'', mtime = 997000\<rparr>" "quiet_env 1000000" stats0]
  by (simp add: app_dir_def quiet_env_def)

subsection \<open>Dry run\<close>

lemma shift_dry: "shift_loop e True l is fs = Returned fs"
  by (induction "is") (simp_all add: Let_def)

lemma compress_dry: "fst (compress_loop e True l is (fs, st)) = fs"
  by (induction "is" arbitrary: st) (simp_all add: Let_def)

lemma cleanup_dry: "fst (state_of (cleanup_loop e True l c k ps (fs, st))) = fs"
  by (induction ps arbitrary: st) (simp_all add: Let_def state_of_def split: option.split)

lemma compress_and_cleanup_dry:
  "fst (state_of (compress_and_cleanup e True l a k c (fs, st))) = fs"
proof -
  obtain fs1 st1 where s1: "compress_rotated_logs e True l k (fs, st) = (fs1, st1)"
    by (cases "compress_rotated_logs e True l k (fs, st)")
  then have "fs1 = fs"
    using compress_dry [of e l "compress_range k" fs st]
    by (simp add: compress_rotated_logs_def)
  with s1 show ?thesis
    by (simp add: compress_and_cleanup_def cleanup_old_rotations_def cleanup_dry)
qed

lemma process_log_file_dry:
  "fst (state_of (process_log_file e True l a k c m (fs, st))) = fs"
  by (simp add: process_log_file_def shift_rotations_def shift_dry rotate_current_def
      compress_and_cleanup_dry) (simp add: state_of_def)

lemma process_files_dry:
  "fst (process_files e True a k c m ls (fs, st)) = fs"
proof (induction ls arbitrary: st)
  case Nil
  show ?case by simp
next
  case (Cons x ls)
  obtain r where r: "process_log_file e True x a k c m (fs, st) = r" by simp
  have "fst (state_of r) = fs" using process_log_file_dry [of e x a k c m fs st] r by simp
  then show ?case using Cons.IH r
    by (cases r; cases "state_of r") (auto simp: state_of_def)
qed

lemma process_log_group_dry: "fst (process_log_group e True g (w, st)) = w"
proof -
  have upd: "(case process_files e True a k c m ls (fs, st) of (fs1, st1) \<Rightarrow> (w(d := Dir fs1), st1))
      = (w, snd (process_files e True a k c m ls (fs, st)))" if "w d = Dir fs" for d fs a k c m ls
  proof -
    obtain fs1 st1 where r: "process_files e True a k c m ls (fs, st) = (fs1, st1)"
      by (cases "process_files e True a k c m ls (fs, st)")
    then have "fs1 = fs" using process_files_dry [of e a k c m ls fs st] by simp
    with r that show ?thesis by (simp add: fun_upd_idem)
  qed
  show ?thesis
    by (simp add: process_log_group_def Let_def upd split: node.split)
qed

lemma process_groups_dry: "fst (process_groups e True gs (w, st)) = w"
proof (induction gs arbitrary: st)
  case Nil
  show ?case by simp
next
  case (Cons g gs)
  then show ?case
    using process_log_group_dry [of e "snd g" w st]
    by (cases "process_log_group e True (snd g) (w, st)") simp
qed

text \<open>
  Claim C7. A run of the engine with the dry-run flag set returns the file system it
  was given: no directory and no file in it is changed.
\<close>

theorem dry_run_filesystem_unchanged:
  "fst (snd (rotate_logs e True groups world)) = world"
  using process_groups_dry [of e groups world stats0]
  by (auto simp: rotate_logs_def split: prod.split)

theorem dry_run_filesystem_unchanged_witness:
  "rotate_logs (quiet_env 1000000) True app_groups app_world =
     (0, app_world, \<lparr>rotated = 1, compressed = 1, deleted = 0, errors = 0, bytes_freed = 0\<rparr>)"
proof -
  have "fst (rotate_logs (quiet_env 1000000) True app_groups app_world) = 0"
    by code_simp
  moreover have "snd (snd (rotate_logs (quiet_env 1000000) True app_groups app_world)) =
     \<lparr>rotated = 1, compressed = 1, deleted = 0, errors = 0, bytes_freed = 0\<rparr>"
    by code_simp
  ultimately show ?thesis
    using dry_run_filesystem_unchanged [of "quiet_env 1000000" app_groups app_world]
    by (metis prod.collapse)
qed

subsection \<open>The retention sweep\<close>

lemma keys_map_of: "x \<in> fst ` set fs \<Longrightarrow> \<exists>f. map_of fs x = Some f"
  by (metis domD dom_map_of_conv_image_fst)

lemma cleanup_loop_real:
  assumes "distinct (map fst fs)" "distinct ps" "set ps \<subseteq> fst ` set fs"
  shows "\<exists>st'. cleanup_loop e False l c k ps (fs, st) =
           Returned (filter (\<lambda>p. \<not> swept e l c k ps p) fs, st')"
  using assms
proof (induction ps arbitrary: fs st)
  case Nil
  show ?case by (simp add: swept_def)
next
  case (Cons x ps)
  from Cons.prems have pre: "distinct ps" "set ps \<subseteq> fst ` set fs" "x \<notin> set ps" by auto
  show ?case
  proof (cases "x = l")
    case True
    have eq: "filter (\<lambda>p. \<not> swept e l c k (x # ps) p) fs = filter (\<lambda>p. \<not> swept e l c k ps p) fs"
      using True by (intro filter_cong refl) (auto simp: swept_def doomed_def)
    from Cons.IH [OF Cons.prems(1) pre(1,2), of st] have
      "\<exists>st'. cleanup_loop e False l c k ps (fs, st) =
           Returned (filter (\<lambda>p. \<not> swept e l c k (x # ps) p) fs, st')"
      unfolding eq .
    then show ?thesis using True by simp
  next
    case False
    from Cons.prems obtain f where f: "map_of fs x = Some f"
      using keys_map_of [of x fs] by auto
    have uniq: "\<And>f'. (x, f') \<in> set fs \<Longrightarrow> f' = f"
      using Cons.prems(1) f by simp
    show ?thesis
    proof (cases "too_old c f \<or> too_many k x")
      case sel: True
      show ?thesis
      proof (cases "unlink_fails e x")
        case fails: True
        have eq: "filter (\<lambda>p. \<not> swept e l c k (x # ps) p) fs = filter (\<lambda>p. \<not> swept e l c k ps p) fs"
          using fails by (intro filter_cong refl) (auto simp: swept_def)
        from Cons.IH [OF Cons.prems(1) pre(1,2), of "count_error st"] show ?thesis
          using sel fails False f by (simp add: eq Let_def)
      next
        case ok: False
        let ?fs = "fs_unlink fs x"
        have d: "distinct (map fst ?fs)" using Cons.prems(1) by (rule distinct_fs_unlink)
        have fsx: "?fs = filter (\<lambda>p. fst p \<noteq> x) fs"
          by (simp add: fs_unlink_def AList.delete_eq case_prod_unfold) (metis)
        have sub: "set ps \<subseteq> fst ` set ?fs"
          using pre(2,3) unfolding fsx by force
        have eq: "filter (\<lambda>p. \<not> swept e l c k ps p) ?fs = filter (\<lambda>p. \<not> swept e l c k (x # ps) p) fs"
          unfolding fsx filter_filter
          using sel ok False uniq
          by (intro filter_cong refl) (auto simp: swept_def doomed_def)
        from Cons.IH [OF d pre(1) sub] show ?thesis
          using sel ok False f by (simp add: eq Let_def)
      qed
    next
      case nd: False
      have eq: "filter (\<lambda>p. \<not> swept e l c k (x # ps) p) fs = filter (\<lambda>p. \<not> swept e l c k ps p) fs"
        using nd uniq by (intro filter_cong refl) (auto simp: swept_def doomed_def)
      from Cons.IH [OF Cons.prems(1) pre(1,2), of st] show ?thesis
        using nd False f by (simp add: eq)
    qed
  qed
qed

lemma distinct_rotated_files:
  "distinct (map fst fs) \<Longrightarrow> distinct (rotated_files e l fs)"
  unfolding rotated_files_def
  by (simp add: distinct_map inj_on_def)

lemma set_rotated_files:
  "set (rotated_files e l fs) = {x \<in> fst ` set fs. glob_match e (l @ ''.*'') x}"
  unfolding rotated_files_def by auto

lemma sweep_selected_Cons:
  "sweep_selected l c k fs (x # ps) =
     (if (case map_of fs x of Some f \<Rightarrow> doomed l c k (x, f) | None \<Rightarrow> False)
      then x # sweep_selected l c k fs ps else sweep_selected l c k fs ps)"
  by (simp add: sweep_selected_def)

lemma sweep_selected_unlink:
  "x \<notin> set ps \<Longrightarrow> sweep_selected l c k (fs_unlink fs x) ps = sweep_selected l c k fs ps"
  unfolding sweep_selected_def
  by (intro filter_cong refl) (auto simp: map_of_fs_unlink)

lemma cleanup_loop_counts:
  assumes "distinct ps" "set ps \<subseteq> fst ` set fs"
  shows "\<exists>fs' st'. cleanup_loop e dry l c k ps (fs, st) = Returned (fs', st') \<and>
           deleted st' = deleted st +
             int (length (filter (\<lambda>x. dry \<or> \<not> unlink_fails e x) (sweep_selected l c k fs ps))) \<and>
           errors st' = errors st +
             int (length (filter (\<lambda>x. \<not> dry \<and> unlink_fails e x) (sweep_selected l c k fs ps))) \<and>
           rotated st' = rotated st \<and> compressed st' = compressed st \<and>
           (dry \<longrightarrow> fs' = fs \<and> bytes_freed st' = bytes_freed st)"
  using assms
proof (induction ps arbitrary: fs st)
  case Nil
  show ?case by (simp add: sweep_selected_def)
next
  case (Cons x ps)
  from Cons.prems have pre: "distinct ps" "set ps \<subseteq> fst ` set fs" "x \<notin> set ps" by auto
  note IH = Cons.IH [OF pre(1)]
  show ?case
  proof (cases "x = l")
    case True
    then have sel: "sweep_selected l c k fs (x # ps) = sweep_selected l c k fs ps"
      by (simp add: sweep_selected_Cons doomed_def split: option.split)
    from IH [OF pre(2), of st] show ?thesis unfolding sel using True by simp
  next
    case False
    from Cons.prems obtain f where f: "map_of fs x = Some f"
      using keys_map_of [of x fs] by auto
    show ?thesis
    proof (cases "too_old c f \<or> too_many k x")
      case nd: False
      then have sel: "sweep_selected l c k fs (x # ps) = sweep_selected l c k fs ps"
        using f by (simp add: sweep_selected_Cons doomed_def)
      from IH [OF pre(2), of st] show ?thesis unfolding sel using nd False f by simp
    next
      case sd: True
      then have sel: "sweep_selected l c k fs (x # ps) = x # sweep_selected l c k fs ps"
        using f False by (simp add: sweep_selected_Cons doomed_def)
      show ?thesis
      proof (cases "dry")
        case True
        from IH [OF pre(2), of "st\<lparr>deleted := deleted st + 1\<rparr>"] show ?thesis
          unfolding sel using sd False f True by (auto simp: Let_def)
      next
        case real: False
        show ?thesis
        proof (cases "unlink_fails e x")
          case True
          from IH [OF pre(2), of "count_error st"] show ?thesis
            unfolding sel using sd False f True real by (auto simp: Let_def count_error_def)
        next
          case ok: False
          let ?fs = "fs_unlink fs x"
          have sub: "set ps \<subseteq> fst ` set ?fs"
            using pre(2,3) by (auto simp: fs_unlink_def AList.delete_eq) force
          from IH [OF sub, of "st\<lparr>deleted := deleted st + 1,
              bytes_freed := bytes_freed st + int (length (content f))\<rparr>"]
          show ?thesis
            unfolding sel sweep_selected_unlink [OF pre(3)] using sd False f ok real
            by (auto simp: Let_def)
        qed
      qed
    qed
  qed
qed

lemma cleanup_loop_noop:
  assumes "\<forall>x\<in>set ps. x = l \<or> (\<exists>f. map_of fs x = Some f \<and> \<not> (too_old c f \<or> too_many k x))"
  shows "cleanup_loop e dry l c k ps (fs, st) = Returned (fs, st)"
  using assms by (induction ps) auto


lemma cleanup_old_rotations_real:
  assumes "distinct (map fst fs)"
  shows "\<exists>st'. cleanup_old_rotations e False l a k (fs, st) =
     Returned (filter (\<lambda>p. \<not> swept e l (cutoff e a) k (rotated_files e l fs) p) fs, st')"
  unfolding cleanup_old_rotations_def fst_conv
  by (rule cleanup_loop_real [OF assms distinct_rotated_files [OF assms]])
     (auto simp: set_rotated_files)

lemma sweep_dir_distinct: "distinct (map fst sweep_dir)"
  by (simp add: sweep_dir_def)






text \<open>
  Claim C8. When no \<^verbatim>\<open>unlink\<close> fails, a second sweep with the same clock and policy
  returns the directory the first sweep left: it deletes nothing (the sweep never
  renames), and in a real run it changes no counter either.
\<close>

theorem sweep_twice_is_sweep_once:
  assumes wf: "distinct (map fst fs)"
    and ok: "\<forall>p. \<not> unlink_fails e p"
  shows "\<exists>fs1 st1.
           cleanup_old_rotations e dry log_file max_age_days max_rotations (fs, st) = Returned (fs1, st1) \<and>
           (\<exists>st2. cleanup_old_rotations e dry log_file max_age_days max_rotations (fs1, st1) = Returned (fs1, st2) \<and>
                  (\<not> dry \<longrightarrow> st2 = st1))"
proof (cases dry)
  case True
  have sub: "set (rotated_files e log_file fs) \<subseteq> fst ` set fs"
    by (auto simp: set_rotated_files)
  note d = distinct_rotated_files [OF wf, of e log_file]
  from cleanup_loop_counts [OF d sub, of e True log_file "cutoff e max_age_days" max_rotations st]
  obtain st1 where r1: "cleanup_old_rotations e True log_file max_age_days max_rotations (fs, st) = Returned (fs, st1)"
    by (auto simp: cleanup_old_rotations_def)
  from cleanup_loop_counts [OF d sub, of e True log_file "cutoff e max_age_days" max_rotations st1]
  obtain st2 where "cleanup_old_rotations e True log_file max_age_days max_rotations (fs, st1) = Returned (fs, st2)"
    by (auto simp: cleanup_old_rotations_def)
  with r1 True show ?thesis by auto
next
  case False
  let ?c = "cutoff e max_age_days"
  let ?ps = "rotated_files e log_file fs"
  let ?P = "\<lambda>q. \<not> swept e log_file ?c max_rotations ?ps q"
  let ?fs1 = "filter ?P fs"
  from cleanup_old_rotations_real [OF wf] obtain st1 where
    r: "cleanup_old_rotations e False log_file max_age_days max_rotations (fs, st) = Returned (?fs1, st1)"
    by blast
  have wf1: "distinct (map fst ?fs1)" using wf by (simp add: distinct_map_filter)
  have quiet: "\<forall>x\<in>set (rotated_files e log_file ?fs1).
     x = log_file \<or> (\<exists>f. map_of ?fs1 x = Some f \<and> \<not> (too_old ?c f \<or> too_many max_rotations x))"
  proof
    fix x assume "x \<in> set (rotated_files e log_file ?fs1)"
    then obtain f where in1: "(x, f) \<in> set ?fs1" and g: "glob_match e (log_file @ ''.*'') x"
      by (auto simp: set_rotated_files)
    then have inx: "(x, f) \<in> set fs" and keep: "?P (x, f)" by auto
    have "x \<in> set ?ps" using inx g by (auto simp: set_rotated_files intro: rev_image_eqI)
    with keep ok have "x = log_file \<or> \<not> (too_old ?c f \<or> too_many max_rotations x)"
      by (auto simp: swept_def doomed_def)
    moreover have "map_of ?fs1 x = Some f" using wf1 in1 by simp
    ultimately show "x = log_file \<or> (\<exists>f. map_of ?fs1 x = Some f \<and> \<not> (too_old ?c f \<or> too_many max_rotations x))"
      by auto
  qed
  have "cleanup_old_rotations e False log_file max_age_days max_rotations (?fs1, st1) = Returned (?fs1, st1)"
    unfolding cleanup_old_rotations_def fst_conv by (rule cleanup_loop_noop [OF quiet])
  with r False show ?thesis by auto
qed

theorem sweep_twice_is_sweep_once_witness:
  "\<exists>fs1 st1.
     cleanup_old_rotations (quiet_env 8640000) False ''app.log'' 30 2 (sweep_dir, stats0) = Returned (fs1, st1) \<and>
     deleted st1 = 3 \<and>
     cleanup_old_rotations (quiet_env 8640000) False ''app.log'' 30 2 (fs1, st1) = Returned (fs1, st1)"
proof -
  have ok: "\<forall>p. \<not> unlink_fails (quiet_env 8640000) p"
    by (simp add: quiet_env_def)
  have d: "deleted (snd (state_of (cleanup_old_rotations (quiet_env 8640000) False ''app.log'' 30 2 (sweep_dir, stats0)))) = 3"
    by code_simp
  from sweep_twice_is_sweep_once [OF sweep_dir_distinct ok, of False "''app.log''" 30 2 stats0] d
  show ?thesis by (auto simp: state_of_def)
qed

subsection \<open>The compression pass\<close>


lemma gz_name_neq [simp]: "gz_name p \<noteq> p" "p \<noteq> gz_name p"
  by (simp_all add: gz_name_def)

lemma compress_one_frame:
  assumes "compress_one e p (gz_name p) (fs, st) = (fs1, st1)" "x \<noteq> p" "x \<noteq> gz_name p"
  shows "map_of fs1 x = map_of fs x"
  using assms
  by (auto simp: compress_one_def Let_def map_of_fs_write map_of_fs_unlink
      split: option.splits gz_fault.splits)

lemma compress_one_effect:
  assumes "compress_one e p (gz_name p) (fs, st) = (fs1, st1)"
    and "map_of fs p \<noteq> None" "map_of fs (gz_name p) = None"
  shows "(map_of fs1 p, map_of fs1 (gz_name p)) = compress_outcome e p (map_of fs p) (map_of fs (gz_name p))"
  using assms
  by (auto simp: compress_one_def compress_outcome_def gzipped_def Let_def map_of_fs_write map_of_fs_unlink
      split: option.splits gz_fault.splits)

lemma compress_one_distinct:
  assumes "compress_one e p q (fs, st) = (fs1, st1)" "distinct (map fst fs)"
  shows "distinct (map fst fs1)"
  using assms
  by (auto simp: compress_one_def Let_def distinct_fs_write distinct_fs_unlink
      split: option.splits gz_fault.splits)

lemma compress_outcome_skip:
  "plain = None \<or> gz \<noteq> None \<Longrightarrow> compress_outcome e p plain gz = (plain, gz)"
  by (auto simp: compress_outcome_def split: option.splits)

lemma compress_loop_real:
  assumes "distinct is" "compress_loop e False l is (fs, st) = (fs', st')"
  shows "(\<forall>i\<in>set is. (map_of fs' (rotated_name l i), map_of fs' (gz_name (rotated_name l i))) =
             compress_outcome e (rotated_name l i) (map_of fs (rotated_name l i))
               (map_of fs (gz_name (rotated_name l i)))) \<and>
         (\<forall>x. (\<forall>i\<in>set is. x \<noteq> rotated_name l i \<and> x \<noteq> gz_name (rotated_name l i)) \<longrightarrow>
              map_of fs' x = map_of fs x)"
  using assms
proof (induction "is" arbitrary: fs st)
  case Nil
  then show ?case by simp
next
  case (Cons i "is")
  let ?p = "rotated_name l i"
  obtain fs1 st1 where step:
    "(if compress_attempted l fs i then compress_one e ?p (gz_name ?p) (fs, st) else (fs, st)) = (fs1, st1)"
    by (cases "if compress_attempted l fs i then compress_one e ?p (gz_name ?p) (fs, st) else (fs, st)")
  have loop: "compress_loop e False l is (fs1, st1) = (fs', st')"
    using Cons.prems(2) step by (auto simp: Let_def compress_attempted_def split: if_splits)
  from Cons.prems(1) have d: "distinct is" and ni: "i \<notin> set is" by auto
  note IH = Cons.IH [OF d loop]
  have frame1: "map_of fs1 x = map_of fs x" if "x \<noteq> ?p" "x \<noteq> gz_name ?p" for x
    using step that by (auto split: if_splits dest: compress_one_frame)
  have eff1: "(map_of fs1 ?p, map_of fs1 (gz_name ?p)) =
      compress_outcome e ?p (map_of fs ?p) (map_of fs (gz_name ?p))"
  proof (cases "compress_attempted l fs i")
    case True
    then have a: "map_of fs ?p \<noteq> None" "map_of fs (gz_name ?p) = None"
      by (simp_all add: compress_attempted_def path_exists_def)
    from True step have "compress_one e ?p (gz_name ?p) (fs, st) = (fs1, st1)" by simp
    from compress_one_effect [OF this a] show ?thesis .
  next
    case False
    with step show ?thesis
      by (auto simp: compress_attempted_def path_exists_def compress_outcome_skip)
  qed
  have "(map_of fs' (rotated_name l j), map_of fs' (gz_name (rotated_name l j))) =
             compress_outcome e (rotated_name l j) (map_of fs (rotated_name l j))
               (map_of fs (gz_name (rotated_name l j)))" if j: "j \<in> set (i # is)" for j
  proof (cases "j = i")
    case True
    have "\<forall>j\<in>set is. ?p \<noteq> rotated_name l j \<and> ?p \<noteq> gz_name (rotated_name l j)"
      "\<forall>j\<in>set is. gz_name ?p \<noteq> rotated_name l j \<and> gz_name ?p \<noteq> gz_name (rotated_name l j)"
      using ni by auto
    with IH have "map_of fs' ?p = map_of fs1 ?p" "map_of fs' (gz_name ?p) = map_of fs1 (gz_name ?p)"
      by blast+
    with eff1 True show ?thesis by simp
  next
    case False
    with j have "j \<in> set is" by simp
    moreover have "map_of fs1 (rotated_name l j) = map_of fs (rotated_name l j)"
      "map_of fs1 (gz_name (rotated_name l j)) = map_of fs (gz_name (rotated_name l j))"
      using False by (auto intro!: frame1)
    ultimately show ?thesis using IH by simp
  qed
  moreover have "map_of fs' x = map_of fs x"
    if "\<forall>j\<in>set (i # is). x \<noteq> rotated_name l j \<and> x \<noteq> gz_name (rotated_name l j)" for x
    using that IH frame1 [of x] by simp
  ultimately show ?case by blast
qed

lemma compress_one_counts:
  assumes "compress_one e p q (fs, st) = (fs1, st1)" "map_of fs p \<noteq> None"
  shows "compressed st1 = compressed st + (if gz_fails e p = GzOk then 1 else 0)"
    and "errors st1 = errors st + (if gz_fails e p = GzOk then 0 else 1)"
    and "rotated st1 = rotated st" and "deleted st1 = deleted st"
  using assms
  by (auto simp: compress_one_def Let_def count_error_def split: option.splits gz_fault.splits)

lemma compress_attempted_frame:
  assumes "\<And>x. x \<noteq> rotated_name l i \<Longrightarrow> x \<noteq> gz_name (rotated_name l i) \<Longrightarrow> map_of fs1 x = map_of fs x"
    and "j \<noteq> i"
  shows "compress_attempted l fs1 j = compress_attempted l fs j"
  using assms by (simp add: compress_attempted_def path_exists_def)

lemma compress_loop_Cons:
  "compress_loop e dry l (i # is) (fs, st) =
     compress_loop e dry l is
       (if compress_attempted l fs i
        then (if dry then (fs, st\<lparr>compressed := compressed st + 1\<rparr>)
              else compress_one e (rotated_name l i) (gz_name (rotated_name l i)) (fs, st))
        else (fs, st))"
  by (simp add: Let_def compress_attempted_def)

lemma compress_loop_counts:
  assumes "distinct is" "compress_loop e dry l is (fs, st) = (fs', st')"
  shows "compressed st' = compressed st +
           int (length (filter (\<lambda>i. compress_attempted l fs i \<and>
                                   (dry \<or> gz_fails e (rotated_name l i) = GzOk)) is)) \<and>
         errors st' = errors st +
           int (length (filter (\<lambda>i. \<not> dry \<and> compress_attempted l fs i \<and>
                                   gz_fails e (rotated_name l i) \<noteq> GzOk) is)) \<and>
         rotated st' = rotated st \<and> deleted st' = deleted st"
  using assms
proof (induction "is" arbitrary: fs st)
  case Nil
  then show ?case by simp
next
  case (Cons i "is")
  let ?p = "rotated_name l i"
  from Cons.prems(1) have d: "distinct is" and ni: "i \<notin> set is" by auto
  show ?case
  proof (cases "compress_attempted l fs i")
    case False
    then have loop: "compress_loop e dry l is (fs, st) = (fs', st')"
      using Cons.prems(2) by (simp add: compress_loop_Cons del: compress_loop.simps)
    from Cons.IH [OF d loop] False show ?thesis by simp
  next
    case att: True
    show ?thesis
    proof (cases dry)
      case True
      then have loop: "compress_loop e dry l is (fs, st\<lparr>compressed := compressed st + 1\<rparr>) = (fs', st')"
        using Cons.prems(2) att by (simp add: compress_loop_Cons del: compress_loop.simps)
      from Cons.IH [OF d loop] att True show ?thesis by simp
    next
      case False
      obtain fs1 st1 where step: "compress_one e ?p (gz_name ?p) (fs, st) = (fs1, st1)"
        by (cases "compress_one e ?p (gz_name ?p) (fs, st)")
      have loop: "compress_loop e dry l is (fs1, st1) = (fs', st')"
        using Cons.prems(2) att False step by (simp add: compress_loop_Cons del: compress_loop.simps)
      have ex: "map_of fs ?p \<noteq> None" using att by (simp add: compress_attempted_def path_exists_def)
      have same: "compress_attempted l fs1 j = compress_attempted l fs j" if "j \<in> set is" for j
        using that ni compress_one_frame [OF step]
        by (intro compress_attempted_frame [of l i]) auto
      have f1: "filter (\<lambda>i. compress_attempted l fs1 i \<and> (dry \<or> gz_fails e (rotated_name l i) = GzOk)) is
        = filter (\<lambda>i. compress_attempted l fs i \<and> (dry \<or> gz_fails e (rotated_name l i) = GzOk)) is"
        and f2: "filter (\<lambda>i. \<not> dry \<and> compress_attempted l fs1 i \<and> gz_fails e (rotated_name l i) \<noteq> GzOk) is
        = filter (\<lambda>i. \<not> dry \<and> compress_attempted l fs i \<and> gz_fails e (rotated_name l i) \<noteq> GzOk) is"
        using same by (auto intro!: filter_cong)
      from Cons.IH [OF d loop] compress_one_counts [OF step ex] att False
      show ?thesis unfolding f1 f2 by simp
    qed
  qed
qed

lemma compress_loop_distinct:
  assumes "compress_loop e dry l is (fs, st) = (fs', st')" "distinct (map fst fs)"
  shows "distinct (map fst fs')"
  using assms
proof (induction "is" arbitrary: fs st)
  case Nil
  then show ?case by simp
next
  case (Cons i "is")
  let ?p = "rotated_name l i"
  obtain fs1 st1 where step: "compress_one e ?p (gz_name ?p) (fs, st) = (fs1, st1)"
    by (cases "compress_one e ?p (gz_name ?p) (fs, st)")
  have d1: "distinct (map fst fs1)"
    using compress_one_distinct [OF step Cons.prems(2)] .
  from Cons.prems(1) Cons.IH [OF _ d1] Cons.IH [OF _ Cons.prems(2)] step show ?case
    by (auto simp: compress_loop_Cons simp del: compress_loop.simps split: if_splits)
qed

lemma distinct_compress_range: "distinct (compress_range k)"
  by (simp add: compress_range_def)

lemma set_compress_range: "i \<in> set (compress_range k) \<longleftrightarrow> 1 \<le> i \<and> int i \<le> k"
  by (auto simp: compress_range_def)

lemma compress_pass_real:
  assumes "compress_rotated_logs e False l k (fs, st) = (fs', st')"
  shows "1 \<le> i \<Longrightarrow> int i \<le> k \<Longrightarrow>
           (map_of fs' (rotated_name l i), map_of fs' (gz_name (rotated_name l i))) =
             compress_outcome e (rotated_name l i) (map_of fs (rotated_name l i))
               (map_of fs (gz_name (rotated_name l i)))"
    and "\<not> (1 \<le> i \<and> int i \<le> k) \<Longrightarrow>
           map_of fs' (rotated_name l i) = map_of fs (rotated_name l i) \<and>
           map_of fs' (gz_name (rotated_name l i)) = map_of fs (gz_name (rotated_name l i))"
    and "(\<And>j. x \<noteq> rotated_name l j \<and> x \<noteq> gz_name (rotated_name l j)) \<Longrightarrow> map_of fs' x = map_of fs x"
proof -
  note r = compress_loop_real [OF distinct_compress_range assms [unfolded compress_rotated_logs_def]]
  show "1 \<le> i \<Longrightarrow> int i \<le> k \<Longrightarrow>
           (map_of fs' (rotated_name l i), map_of fs' (gz_name (rotated_name l i))) =
             compress_outcome e (rotated_name l i) (map_of fs (rotated_name l i))
               (map_of fs (gz_name (rotated_name l i)))"
    using r by (simp add: set_compress_range)
  show "map_of fs' (rotated_name l i) = map_of fs (rotated_name l i) \<and>
           map_of fs' (gz_name (rotated_name l i)) = map_of fs (gz_name (rotated_name l i))"
    if "\<not> (1 \<le> i \<and> int i \<le> k)"
  proof -
    have "\<forall>j\<in>set (compress_range k). rotated_name l i \<noteq> rotated_name l j \<and>
        rotated_name l i \<noteq> gz_name (rotated_name l j)"
      "\<forall>j\<in>set (compress_range k). gz_name (rotated_name l i) \<noteq> rotated_name l j \<and>
        gz_name (rotated_name l i) \<noteq> gz_name (rotated_name l j)"
      using that by (auto simp: set_compress_range)
    with r show ?thesis by blast
  qed
  show "map_of fs' x = map_of fs x" if "\<And>j. x \<noteq> rotated_name l j \<and> x \<noteq> gz_name (rotated_name l j)"
    using r that by blast
qed


text \<open>
  Claim C5. After a real compression pass, an original \<^verbatim>\<open><name>.N\<close> that is gone has
  its complete compressed copy at \<^verbatim>\<open><name>.N.gz\<close>, whatever failed and wherever;
  when the compression of a generation fails the original is still there, unchanged;
  and the error counter has grown by the number of generations whose compression was
  attempted and failed.
\<close>

theorem compression_keeps_original_until_written:
  assumes pass: "compress_rotated_logs e False log_file max_rotations (fs, st) = (fs', st')"
    and orig: "map_of fs (rotated_name log_file i) = Some f"
  shows "(map_of fs' (rotated_name log_file i) = None \<longrightarrow>
            map_of fs' (gz_name (rotated_name log_file i)) = Some (gzipped e f)) \<and>
         (gz_fails e (rotated_name log_file i) \<noteq> GzOk \<longrightarrow>
            map_of fs' (rotated_name log_file i) = Some f) \<and>
         errors st' = errors st +
           int (length (filter (\<lambda>j. compress_attempted log_file fs j \<and>
                                   gz_fails e (rotated_name log_file j) \<noteq> GzOk)
                          (compress_range max_rotations)))"
proof -
  let ?p = "rotated_name log_file i"
  have a: "(map_of fs' ?p = None \<longrightarrow> map_of fs' (gz_name ?p) = Some (gzipped e f)) \<and>
         (gz_fails e ?p \<noteq> GzOk \<longrightarrow> map_of fs' ?p = Some f)"
  proof (cases "1 \<le> i \<and> int i \<le> max_rotations")
    case True
    then have "(map_of fs' ?p, map_of fs' (gz_name ?p)) =
        compress_outcome e ?p (Some f) (map_of fs (gz_name ?p))"
      using compress_pass_real(1) [OF pass, of i] orig by simp
    then show ?thesis
      by (auto simp: compress_outcome_def split: if_splits gz_fault.splits)
  next
    case False
    from compress_pass_real(2) [OF pass False] orig show ?thesis by simp
  qed
  have "errors st' = errors st +
           int (length (filter (\<lambda>j. compress_attempted log_file fs j \<and>
                                   gz_fails e (rotated_name log_file j) \<noteq> GzOk)
                          (compress_range max_rotations)))"
    using compress_loop_counts [OF distinct_compress_range pass [unfolded compress_rotated_logs_def]]
    by simp
  with a show ?thesis by blast
qed

theorem compression_keeps_original_until_written_witness:
  "\<exists>fs' st'. compress_rotated_logs flaky_env False ''app.log'' 3 (plain_dir, stats0) = (fs', st') \<and>
     map_of fs' ''app.log.1'' = Some \<lparr>content = ''hello'', mtime = 998000\<rparr> \<and>
     map_of fs' ''app.log.2'' = None \<and>
     map_of fs' ''app.log.2.gz'' = Some \<lparr>content = ''GZworldZG'', mtime = 1000000\<rparr> \<and>
     errors st' = 1"
proof -
  obtain fs' st' where p: "compress_rotated_logs flaky_env False ''app.log'' 3 (plain_dir, stats0) = (fs', st')"
    by (cases "compress_rotated_logs flaky_env False ''app.log'' 3 (plain_dir, stats0)")
  have n: "rotated_name ''app.log'' 1 = ''app.log.1''" "rotated_name ''app.log'' 2 = ''app.log.2''"
    by code_simp+
  have e0: "errors stats0 = 0"
    by (simp add: stats0_def)
  have o1: "map_of plain_dir (rotated_name ''app.log'' 1) = Some \<lparr>content = ''hello'', mtime = 998000\<rparr>"
    and o2: "map_of plain_dir (rotated_name ''app.log'' 2) = Some \<lparr>content = ''world'', mtime = 997000\<rparr>"
    unfolding n by (simp_all add: plain_dir_def)
  have f1: "gz_fails flaky_env ''app.log.1'' \<noteq> GzOk"
    by (simp add: flaky_env_def quiet_env_def)
  have cnt: "int (length (filter (\<lambda>j. compress_attempted ''app.log'' plain_dir j \<and>
                                   gz_fails flaky_env (rotated_name ''app.log'' j) \<noteq> GzOk)
                          (compress_range 3))) = 1"
    by code_simp
  have "map_of (fst (compress_rotated_logs flaky_env False ''app.log'' 3 (plain_dir, stats0)))
      ''app.log.2'' = None"
    by code_simp
  then have gone: "map_of fs' ''app.log.2'' = None"
    by (simp add: p)
  have z: "gzipped flaky_env \<lparr>content = ''world'', mtime = 997000\<rparr> = \<lparr>content = ''GZworldZG'', mtime = 1000000\<rparr>"
    by (simp add: gzipped_def flaky_env_def quiet_env_def)
  show ?thesis
    using compression_keeps_original_until_written [OF p o1] compression_keeps_original_until_written [OF p o2] f1 gone
    unfolding n cnt z e0 by (simp add: p gz_name_def)
qed



subsection \<open>The generation shift\<close>

lemma length_update_le: "length (AList.update k v al) \<le> Suc (length al)"
  by (induction al) auto

lemma length_delete_less: "map_of al k = Some v \<Longrightarrow> length (AList.delete k al) < length al"
proof (induction al)
  case Nil
  then show ?case by simp
next
  case (Cons a al)
  then show ?case
    using length_delete_le [of k al] by (cases a) (auto split: if_splits)
qed

lemma set_update_subset: "set (AList.update k v al) \<subseteq> insert (k, v) (set al)"
  by (induction al) auto

lemma set_delete_subset: "set (AList.delete k al) \<subseteq> set al"
  by (auto simp: AList.delete_eq)

lemma length_fs_rename: "length (fs_rename fs old new) \<le> length fs"
proof (cases "map_of fs old")
  case None
  then show ?thesis by (simp add: fs_rename_def)
next
  case (Some f)
  have "length (AList.update new f (AList.delete old fs)) \<le> Suc (length (AList.delete old fs))"
    by (rule length_update_le)
  also have "\<dots> \<le> length fs"
    using length_delete_less [OF Some] by simp
  finally show ?thesis using Some by (simp add: fs_rename_def)
qed

lemma files_fs_rename: "snd ` set (fs_rename fs old new) \<subseteq> snd ` set fs"
proof (cases "map_of fs old")
  case None
  then show ?thesis by (simp add: fs_rename_def)
next
  case (Some f)
  have "f \<in> snd ` set fs"
    using map_of_SomeD [OF Some] by force
  moreover have "set (AList.update new f (AList.delete old fs)) \<subseteq> insert (new, f) (set fs)"
    using set_update_subset [of new f "AList.delete old fs"] set_delete_subset [of old fs] by auto
  ultimately have "snd ` set (AList.update new f (AList.delete old fs)) \<subseteq> snd ` set fs"
    by force
  then show ?thesis using Some by (simp add: fs_rename_def)
qed

lemma shift_loop_Cons:
  assumes "\<not> rename_fails e (rotated_name l i)" "\<not> rename_fails e (gz_name (rotated_name l i))"
  shows "\<exists>fs1. shift_loop e False l (i # is) fs = shift_loop e False l is fs1 \<and>
           map_of fs1 = shift_step l i (map_of fs) \<and>
           (distinct (map fst fs) \<longrightarrow> distinct (map fst fs1)) \<and>
           length fs1 \<le> length fs \<and> snd ` set fs1 \<subseteq> snd ` set fs"
proof (cases "map_of fs (gz_name (rotated_name l i))")
  case (Some g)
  let ?fs1 = "fs_rename fs (gz_name (rotated_name l i)) (gz_name (rotated_name l (i + 1)))"
  have "shift_loop e False l (i # is) fs = shift_loop e False l is ?fs1"
    using Some assms by (simp add: Let_def path_exists_def)
  moreover have "map_of ?fs1 = shift_step l i (map_of fs)"
    using Some by (simp add: map_of_fs_rename shift_step_def)
  ultimately show ?thesis
    using distinct_fs_rename length_fs_rename files_fs_rename by blast
next
  case None
  show ?thesis
  proof (cases "map_of fs (rotated_name l i)")
    case (Some p)
    let ?fs1 = "fs_rename fs (rotated_name l i) (rotated_name l (i + 1))"
    have "shift_loop e False l (i # is) fs = shift_loop e False l is ?fs1"
      using Some None assms by (simp add: Let_def path_exists_def)
    moreover have "map_of ?fs1 = shift_step l i (map_of fs)"
      using Some None by (simp add: map_of_fs_rename shift_step_def)
    ultimately show ?thesis
      using distinct_fs_rename length_fs_rename files_fs_rename by blast
  next
    case n2: None
    have "shift_loop e False l (i # is) fs = shift_loop e False l is fs"
      using None n2 by (simp add: Let_def path_exists_def)
    moreover have "map_of fs = shift_step l i (map_of fs)"
      using None n2 by (simp add: shift_step_def)
    ultimately show ?thesis by blast
  qed
qed

lemma shift_step_frame:
  "(\<And>j. x \<noteq> rotated_name l j \<and> x \<noteq> gz_name (rotated_name l j)) \<Longrightarrow> shift_step l i m x = m x"
  by (simp add: shift_step_def split: option.split)

lemma shift_step_gz:
  "shifted_gz l (Suc n) (shift_step l (Suc n) m) j = shifted_gz l (Suc (Suc n)) m j"
proof -
  consider "j = Suc n" | "j = Suc (Suc n)" | "j < Suc n" | "Suc (Suc n) < j"
    by linarith
  then show ?thesis
  proof cases
    case 1
    then show ?thesis
      by (cases "m (gz_name (rotated_name l (Suc n)))"; cases "m (rotated_name l (Suc n))")
         (auto simp: shifted_gz_def shift_step_def)
  next
    case 2
    then show ?thesis
      by (cases "m (gz_name (rotated_name l (Suc n)))"; cases "m (rotated_name l (Suc n))")
         (auto simp: shifted_gz_def shift_step_def)
  next
    case 3
    then show ?thesis
      by (cases "m (gz_name (rotated_name l (Suc n)))"; cases "m (rotated_name l (Suc n))")
         (auto simp: shifted_gz_def shift_step_def)
  next
    case 4
    then show ?thesis
      by (cases "m (gz_name (rotated_name l (Suc n)))"; cases "m (rotated_name l (Suc n))")
         (auto simp: shifted_gz_def shift_step_def)
  qed
qed

lemma shift_step_plain:
  "shifted_plain l (Suc n) (shift_step l (Suc n) m) j = shifted_plain l (Suc (Suc n)) m j"
proof -
  consider "j = Suc n" | "j = Suc (Suc n)" | "j < Suc n" | "Suc (Suc n) < j"
    by linarith
  then show ?thesis
  proof cases
    case 1
    then show ?thesis
      by (cases "m (gz_name (rotated_name l (Suc n)))"; cases "m (rotated_name l (Suc n))")
         (auto simp: shifted_plain_def shift_step_def)
  next
    case 2
    then show ?thesis
      by (cases "m (gz_name (rotated_name l (Suc n)))"; cases "m (rotated_name l (Suc n))")
         (auto simp: shifted_plain_def shift_step_def)
  next
    case 3
    then show ?thesis
      by (cases "m (gz_name (rotated_name l (Suc n)))"; cases "m (rotated_name l (Suc n))")
         (auto simp: shifted_plain_def shift_step_def)
  next
    case 4
    then show ?thesis
      by (cases "m (gz_name (rotated_name l (Suc n)))"; cases "m (rotated_name l (Suc n))")
         (auto simp: shifted_plain_def shift_step_def)
  qed
qed

lemma shifted_top_one:
  "shifted_gz l (Suc 0) m j = m (gz_name (rotated_name l j))"
  "shifted_plain l (Suc 0) m j = m (rotated_name l j)"
  by (auto simp: shifted_gz_def shifted_plain_def)

lemma shift_loop_down:
  assumes nf: "\<forall>p. \<not> rename_fails e p"
  shows "\<exists>fs'. shift_loop e False l (rev [1 ..< Suc n]) fs = Returned fs' \<and>
           (\<forall>j. map_of fs' (gz_name (rotated_name l j)) = shifted_gz l (Suc n) (map_of fs) j \<and>
                map_of fs' (rotated_name l j) = shifted_plain l (Suc n) (map_of fs) j) \<and>
           (\<forall>x. (\<forall>j. x \<noteq> rotated_name l j \<and> x \<noteq> gz_name (rotated_name l j)) \<longrightarrow>
                map_of fs' x = map_of fs x) \<and>
           (distinct (map fst fs) \<longrightarrow> distinct (map fst fs')) \<and>
           length fs' \<le> length fs \<and> snd ` set fs' \<subseteq> snd ` set fs"
proof (induction n arbitrary: fs)
  case 0
  show ?case by (simp add: shifted_top_one)
next
  case (Suc n)
  have rng: "rev [1 ..< Suc (Suc n)] = Suc n # rev [1 ..< Suc n]"
    by simp
  from shift_loop_Cons [of e l "Suc n" "rev [1 ..< Suc n]" fs] nf obtain fs1 where
    step: "shift_loop e False l (Suc n # rev [1 ..< Suc n]) fs = shift_loop e False l (rev [1 ..< Suc n]) fs1"
    and m1: "map_of fs1 = shift_step l (Suc n) (map_of fs)"
    and d1: "distinct (map fst fs) \<longrightarrow> distinct (map fst fs1)"
    and l1: "length fs1 \<le> length fs" and r1: "snd ` set fs1 \<subseteq> snd ` set fs"
    by blast
  from Suc.IH [of fs1] obtain fs' where
    ret: "shift_loop e False l (rev [1 ..< Suc n]) fs1 = Returned fs'"
    and pt: "\<forall>j. map_of fs' (gz_name (rotated_name l j)) = shifted_gz l (Suc n) (map_of fs1) j \<and>
                map_of fs' (rotated_name l j) = shifted_plain l (Suc n) (map_of fs1) j"
    and fr: "\<forall>x. (\<forall>j. x \<noteq> rotated_name l j \<and> x \<noteq> gz_name (rotated_name l j)) \<longrightarrow>
                map_of fs' x = map_of fs1 x"
    and d: "distinct (map fst fs1) \<longrightarrow> distinct (map fst fs')"
    and ln: "length fs' \<le> length fs1" and rn: "snd ` set fs' \<subseteq> snd ` set fs1"
    by blast
  have "shift_loop e False l (rev [1 ..< Suc (Suc n)]) fs = Returned fs'"
    unfolding rng using step ret by simp
  moreover have "\<forall>j. map_of fs' (gz_name (rotated_name l j)) = shifted_gz l (Suc (Suc n)) (map_of fs) j \<and>
                map_of fs' (rotated_name l j) = shifted_plain l (Suc (Suc n)) (map_of fs) j"
    using pt unfolding m1 shift_step_gz shift_step_plain .
  moreover have "\<forall>x. (\<forall>j. x \<noteq> rotated_name l j \<and> x \<noteq> gz_name (rotated_name l j)) \<longrightarrow>
                map_of fs' x = map_of fs x"
    using fr unfolding m1 by (simp add: shift_step_frame)
  moreover have "distinct (map fst fs) \<longrightarrow> distinct (map fst fs')"
    using d1 d by blast
  moreover have "length fs' \<le> length fs" using l1 ln by simp
  moreover have "snd ` set fs' \<subseteq> snd ` set fs" using r1 rn by blast
  ultimately show ?case by blast
qed

lemma shift_range_Suc: "1 \<le> k \<Longrightarrow> shift_range k = rev [1 ..< Suc (nat k - 1)]"
  by (simp add: shift_range_def)

lemma shift_range_empty: "k \<le> 1 \<Longrightarrow> shift_range k = []"
  by (simp add: shift_range_def)







subsection \<open>Counters of a dry run and of a real run\<close>

text \<open>
  Claim C4, as stated, fails: on the scenario directory the dry run counts one
  compression (\<^verbatim>\<open>app.log.1\<close>, as the directory stands), the real run two (the new
  \<^verbatim>\<open>app.log.1\<close> and the shifted \<^verbatim>\<open>app.log.2\<close>), and only the real run changes
  \<^verbatim>\<open>bytes_freed\<close>.
\<close>

theorem dry_run_counters_differ:
  "snd (snd (rotate_logs (quiet_env 1000000) True app_groups app_world)) =
     \<lparr>rotated = 1, compressed = 1, deleted = 0, errors = 0, bytes_freed = 0\<rparr> \<and>
   snd (snd (rotate_logs (quiet_env 1000000) False app_groups app_world)) =
     \<lparr>rotated = 1, compressed = 2, deleted = 0, errors = 0, bytes_freed = - 8\<rparr>"
  by code_simp

lemma compress_dry_bytes: "bytes_freed (snd (compress_loop e True l is (fs, st))) = bytes_freed st"
  by (induction "is" arbitrary: st) (simp_all add: Let_def)

lemma compress_pass_counts:
  assumes "\<forall>p. gz_fails e p = GzOk"
  shows "\<exists>fs' st'. compress_rotated_logs e dry l k (fs, st) = (fs', st') \<and>
           compressed st' = compressed st +
             int (length (filter (compress_attempted l fs) (compress_range k))) \<and>
           errors st' = errors st \<and> rotated st' = rotated st \<and> deleted st' = deleted st \<and>
           (distinct (map fst fs) \<longrightarrow> distinct (map fst fs')) \<and>
           (dry \<longrightarrow> fs' = fs \<and> bytes_freed st' = bytes_freed st)"
proof -
  obtain fs' st' where r: "compress_loop e dry l (compress_range k) (fs, st) = (fs', st')"
    by (cases "compress_loop e dry l (compress_range k) (fs, st)")
  from compress_loop_counts [OF distinct_compress_range r] assms
  have c: "compressed st' = compressed st +
             int (length (filter (compress_attempted l fs) (compress_range k)))"
    "errors st' = errors st" "rotated st' = rotated st" "deleted st' = deleted st"
    by simp_all
  have d: "distinct (map fst fs) \<longrightarrow> distinct (map fst fs')"
    using compress_loop_distinct [OF r] by blast
  have "dry \<longrightarrow> fs' = fs \<and> bytes_freed st' = bytes_freed st"
    using r compress_dry [of e l "compress_range k" fs st]
      compress_dry_bytes [of e l "compress_range k" fs st] by auto
  with r c d show ?thesis by (simp add: compress_rotated_logs_def)
qed

lemma cleanup_pass_counts:
  assumes "distinct (map fst fs)" "\<forall>p. \<not> unlink_fails e p"
  shows "\<exists>fs' st'. cleanup_old_rotations e dry l a k (fs, st) = Returned (fs', st') \<and>
           deleted st' = deleted st +
             int (length (sweep_selected l (cutoff e a) k fs (rotated_files e l fs))) \<and>
           errors st' = errors st \<and> rotated st' = rotated st \<and> compressed st' = compressed st \<and>
           (dry \<longrightarrow> fs' = fs \<and> bytes_freed st' = bytes_freed st)"
proof -
  have sub: "set (rotated_files e l fs) \<subseteq> fst ` set fs"
    by (auto simp: set_rotated_files)
  from cleanup_loop_counts [OF distinct_rotated_files [OF assms(1)] sub,
      of e dry l "cutoff e a" k st] assms(2)
  show ?thesis
    by (simp add: cleanup_old_rotations_def)
qed

lemma shifted_small:
  assumes "k \<le> 1"
  shows "shifted_gz l k m j = m (gz_name (rotated_name l j))"
    and "shifted_plain l k m j = m (rotated_name l j)"
  using assms by (auto simp: shifted_gz_def shifted_plain_def)

lemma shift_pass_real:
  assumes nf: "\<forall>p. \<not> rename_fails e p"
  shows "\<exists>fs'. shift_rotations e False l k fs = Returned fs' \<and>
           (\<forall>j. map_of fs' (gz_name (rotated_name l j)) = shifted_gz l (nat k) (map_of fs) j \<and>
                map_of fs' (rotated_name l j) = shifted_plain l (nat k) (map_of fs) j) \<and>
           (\<forall>x. (\<forall>j. x \<noteq> rotated_name l j \<and> x \<noteq> gz_name (rotated_name l j)) \<longrightarrow>
                map_of fs' x = map_of fs x) \<and>
           (distinct (map fst fs) \<longrightarrow> distinct (map fst fs'))"
proof (cases "1 \<le> k")
  case True
  then have K: "Suc (nat k - 1) = nat k" by simp
  from shift_loop_down [OF nf, of l "nat k - 1" fs, unfolded K]
  show ?thesis
    unfolding shift_rotations_def shift_range_def by blast
next
  case False
  then have "shift_range k = []" "nat k \<le> 1"
    by (simp_all add: shift_range_empty)
  then show ?thesis
    by (simp add: shift_rotations_def shifted_small)
qed

lemma shift_pass_keeps_log:
  assumes nf: "\<forall>p. \<not> rename_fails e p"
  obtains fs' where "shift_rotations e False l k fs = Returned fs'"
    and "map_of fs' l = map_of fs l"
    and "distinct (map fst fs) \<Longrightarrow> distinct (map fst fs')"
proof -
  from shift_pass_real [OF nf, of l k fs] obtain fs' where
    r: "shift_rotations e False l k fs = Returned fs'"
    and fr: "\<forall>x. (\<forall>j. x \<noteq> rotated_name l j \<and> x \<noteq> gz_name (rotated_name l j)) \<longrightarrow>
                map_of fs' x = map_of fs x"
    and d: "distinct (map fst fs) \<longrightarrow> distinct (map fst fs')"
    by blast
  have "\<forall>j. l \<noteq> rotated_name l j \<and> l \<noteq> gz_name (rotated_name l j)" by simp
  with fr have "map_of fs' l = map_of fs l" by blast
  with r d that show ?thesis by blast
qed

lemma compress_and_cleanup_counts:
  assumes wf: "distinct (map fst fs)"
    and ok: "\<forall>p. gz_fails e p = GzOk" "\<forall>p. \<not> unlink_fails e p"
  shows "\<exists>fs' st'. compress_and_cleanup e dry l a k c (fs, st) = Returned (fs', st') \<and>
           errors st' = errors st \<and> rotated st' = rotated st \<and>
           (dry \<longrightarrow> fs' = fs \<and> bytes_freed st' = bytes_freed st)"
proof (cases c)
  case False
  from cleanup_pass_counts [OF wf ok(2), of dry l a k st] False show ?thesis
    by (auto simp: compress_and_cleanup_def)
next
  case True
  from compress_pass_counts [OF ok(1), of dry l k fs st] wf obtain fs1 st1 where
    p: "compress_rotated_logs e dry l k (fs, st) = (fs1, st1)"
    and c1: "errors st1 = errors st" "rotated st1 = rotated st"
    and d1: "distinct (map fst fs1)"
    and dry1: "dry \<longrightarrow> fs1 = fs \<and> bytes_freed st1 = bytes_freed st"
    by blast
  from cleanup_pass_counts [OF d1 ok(2), of dry l a k st1] obtain fs' st' where
    q: "cleanup_old_rotations e dry l a k (fs1, st1) = Returned (fs', st')"
    and c2: "errors st' = errors st1" "rotated st' = rotated st1"
    and dry2: "dry \<longrightarrow> fs' = fs1 \<and> bytes_freed st' = bytes_freed st1"
    by blast
  from p q c1 c2 dry1 dry2 True show ?thesis
    by (auto simp: compress_and_cleanup_def)
qed

lemma process_log_file_counts:
  assumes wf: "distinct (map fst fs)" and ok: "no_failures e"
  shows "\<exists>fs' st'. process_log_file e dry l a k c m (fs, st) = Returned (fs', st') \<and>
           rotated st' = rotated st + (if should_rotate fs l m then 1 else 0) \<and>
           errors st' = errors st \<and>
           (dry \<longrightarrow> fs' = fs \<and> bytes_freed st' = bytes_freed st)"
proof (cases "should_rotate fs l m")
  case False
  then show ?thesis by (simp add: process_log_file_def)
next
  case True
  then obtain f where f: "map_of fs l = Some f"
    by (auto simp: should_rotate_def split: option.splits)
  from ok have nf: "\<forall>p. \<not> rename_fails e p" and cp: "copy_fails e l = CopyOk"
    and gz: "\<forall>p. gz_fails e p = GzOk" and ul: "\<forall>p. \<not> unlink_fails e p"
    by (simp_all add: no_failures_def)
  show ?thesis
  proof (cases dry)
    case dry: True
    from compress_and_cleanup_counts [OF wf gz ul, of True l a k c "st\<lparr>rotated := rotated st + 1\<rparr>"]
    show ?thesis
      using True dry
      by (auto simp: process_log_file_def shift_rotations_def shift_dry rotate_current_def)
  next
    case real: False
    from shift_pass_keeps_log [OF nf, of l k fs] obtain fs1 where
      s1: "shift_rotations e False l k fs = Returned fs1"
      and l1: "map_of fs1 l = map_of fs l"
      and d1: "distinct (map fst fs1)"
      using wf by blast
    let ?fs2 = "fs_truncate e (fs_copy2 fs1 l (rotated_name l 1)) l"
    have d2: "distinct (map fst ?fs2)"
      using d1 f l1 by (simp add: fs_truncate_def fs_copy2_def distinct_fs_write)
    have rc: "rotate_current e False l (fs1, st) = Inr (?fs2, st\<lparr>rotated := rotated st + 1\<rparr>)"
      using f l1 cp by (simp add: rotate_current_def path_exists_def)
    from compress_and_cleanup_counts [OF d2 gz ul, of False l a k c "st\<lparr>rotated := rotated st + 1\<rparr>"]
    show ?thesis
      using True real s1 rc by (auto simp: process_log_file_def)
  qed
qed

text \<open>
  Claim C4, amended. When no system call fails and the directory is well formed: the
  dry run and the real run of one log file both return, with the same \<^verbatim>\<open>rotated\<close> and
  the same \<^verbatim>\<open>errors\<close>, and the dry run leaves \<^verbatim>\<open>bytes_freed\<close> as it was; the compression
  pass started from one directory counts the same \<^verbatim>\<open>compressed\<close> in both modes; the sweep
  started from one directory counts the same \<^verbatim>\<open>deleted\<close> in both modes.
\<close>

theorem dry_run_counters_agree_step_by_step:
  assumes wf: "distinct (map fst fs)" and ok: "no_failures e"
  shows "(\<exists>fd sd fr sr.
            process_log_file e True log_file max_age_days max_rotations compress min_size_mb (fs, st)
              = Returned (fd, sd) \<and>
            process_log_file e False log_file max_age_days max_rotations compress min_size_mb (fs, st)
              = Returned (fr, sr) \<and>
            rotated sd = rotated sr \<and> errors sd = errors sr \<and> bytes_freed sd = bytes_freed st) \<and>
         compressed (snd (compress_rotated_logs e True log_file max_rotations (fs, st))) =
           compressed (snd (compress_rotated_logs e False log_file max_rotations (fs, st))) \<and>
         deleted (snd (state_of (cleanup_old_rotations e True log_file max_age_days max_rotations (fs, st)))) =
           deleted (snd (state_of (cleanup_old_rotations e False log_file max_age_days max_rotations (fs, st))))"
proof -
  from ok have gz: "\<forall>p. gz_fails e p = GzOk" and ul: "\<forall>p. \<not> unlink_fails e p"
    by (simp_all add: no_failures_def)
  from process_log_file_counts [OF wf ok, of True log_file max_age_days max_rotations compress min_size_mb st]
  obtain fd sd where
    d: "process_log_file e True log_file max_age_days max_rotations compress min_size_mb (fs, st) = Returned (fd, sd)"
    and dc: "rotated sd = rotated st + (if should_rotate fs log_file min_size_mb then 1 else 0)"
      "errors sd = errors st" "bytes_freed sd = bytes_freed st"
    by auto
  from process_log_file_counts [OF wf ok, of False log_file max_age_days max_rotations compress min_size_mb st]
  obtain fr sr where
    r: "process_log_file e False log_file max_age_days max_rotations compress min_size_mb (fs, st) = Returned (fr, sr)"
    and rc: "rotated sr = rotated st + (if should_rotate fs log_file min_size_mb then 1 else 0)"
      "errors sr = errors st"
    by auto
  have a: "\<exists>fd sd fr sr.
            process_log_file e True log_file max_age_days max_rotations compress min_size_mb (fs, st)
              = Returned (fd, sd) \<and>
            process_log_file e False log_file max_age_days max_rotations compress min_size_mb (fs, st)
              = Returned (fr, sr) \<and>
            rotated sd = rotated sr \<and> errors sd = errors sr \<and> bytes_freed sd = bytes_freed st"
    using d r dc rc by auto
  have b: "compressed (snd (compress_rotated_logs e True log_file max_rotations (fs, st))) =
           compressed (snd (compress_rotated_logs e False log_file max_rotations (fs, st)))"
    using compress_pass_counts [OF gz, of True log_file max_rotations fs st]
      compress_pass_counts [OF gz, of False log_file max_rotations fs st]
    by auto
  have c: "deleted (snd (state_of (cleanup_old_rotations e True log_file max_age_days max_rotations (fs, st)))) =
           deleted (snd (state_of (cleanup_old_rotations e False log_file max_age_days max_rotations (fs, st))))"
    using cleanup_pass_counts [OF wf ul, of True log_file max_age_days max_rotations st]
      cleanup_pass_counts [OF wf ul, of False log_file max_age_days max_rotations st]
    by (auto simp: state_of_def)
  from a b c show ?thesis by blast
qed

theorem dry_run_counters_agree_step_by_step_witness:
  "(\<exists>fd sd fr sr.
      process_log_file (quiet_env 1000000) True ''app.log'' 30 3 True 0 (app_dir, stats0) = Returned (fd, sd) \<and>
      process_log_file (quiet_env 1000000) False ''app.log'' 30 3 True 0 (app_dir, stats0) = Returned (fr, sr) \<and>
      rotated sd = rotated sr \<and> errors sd = errors sr \<and> bytes_freed sd = bytes_freed stats0) \<and>
   compressed (snd (compress_rotated_logs (quiet_env 1000000) True ''app.log'' 3 (app_dir, stats0))) =
     compressed (snd (compress_rotated_logs (quiet_env 1000000) False ''app.log'' 3 (app_dir, stats0))) \<and>
   deleted (snd (state_of (cleanup_old_rotations (quiet_env 1000000) True ''app.log'' 30 3 (app_dir, stats0)))) =
     deleted (snd (state_of (cleanup_old_rotations (quiet_env 1000000) False ''app.log'' 30 3 (app_dir, stats0))))"
proof -
  have wf: "distinct (map fst app_dir)"
    by (simp add: app_dir_def)
  have ok: "no_failures (quiet_env 1000000)"
    by (simp add: no_failures_def quiet_env_def)
  show ?thesis
    by (rule dry_run_counters_agree_step_by_step [OF wf ok])
qed

subsection \<open>One full rotation pass\<close>






lemma too_many_generation [simp]:
  "too_many k (rotated_name l j) \<longleftrightarrow> k < int j"
  "too_many k (gz_name (rotated_name l j)) \<longleftrightarrow> k < int j"
  by (simp_all add: too_many_def)


lemma sweep_distinct:
  assumes wf: "distinct (map fst fs)"
    and r: "cleanup_old_rotations e False l a k (fs, st) = Returned (fs', st')"
  shows "distinct (map fst fs')"
  using cleanup_old_rotations_real [OF wf, of e l a k st] r
  by (auto simp: distinct_map_filter wf)



















end
